theory Spec2Isabelle
  imports Complex_Main "HOL-Library.AList"
begin

section \<open>The metabolic model, as simulate.py uses it\<close>

text \<open>
  The script works on a model of the constraint-based modelling library: an ordered
  collection of reactions, each with an identifier and a lower and an upper flux bound,
  and a settable objective. Python's \<open>float\<close> is embedded as \<open>real\<close>: arithmetic is
  exact, and NaN, the infinities, the sign of zero and rounding are outside the embedding.

  Every assignment to \<open>upper_bound\<close> goes through the library's setter, which
  compares the new value with the lower bound and raises \<open>ValueError\<close> when the lower
  bound is greater; the assignments of lines 33 and 39 are modelled with that check.

  The loop of \<open>run_fba_with_enhancement\<close> asks each reaction for an attribute
  \<open>original_upper_bound\<close> with \<open>hasattr\<close>; the attribute is optional, so it is an
  \<open>option\<close> field (\<open>None\<close>: the reaction has no such attribute).
\<close>

record reaction =
  rid :: string
  lower_bound :: real
  upper_bound :: real
  original_upper_bound :: "real option"

record model =
  reactions :: "reaction list"
  objective :: "(string \<times> real) list"

text \<open>
  What \<open>model.optimize()\<close> returns: a status string and the flux vector, a series
  indexed by reaction identifier. The solver is an external collaborator; it is a
  parameter \<open>optimize\<close> of the sweep, a function of the model it is called on.
\<close>

record solution =
  status :: string
  fluxes :: "(string \<times> real) list"

text \<open>
  The exceptions the script can meet. \<open>ValueError\<close> is what the library's setter of
  a bound raises when the lower bound would exceed the upper bound; it carries the two
  bounds of the refused assignment.
\<close>

datatype error = AttributeError string | KeyError string | ValueError real real

text \<open>Errors propagate: the first raise ends the computation.\<close>

definition bind_err :: "error + 'a \<Rightarrow> ('a \<Rightarrow> error + 'b) \<Rightarrow> error + 'b" where
  "bind_err r f = (case r of Inl e \<Rightarrow> Inl e | Inr v \<Rightarrow> f v)"

text \<open>The lines the function prints, as events: the values, not their rendering.\<close>

datatype event =
    BoundChange string real real
  | SkipWarning string real
  | FluxSummary real "(string \<times> real) list"

type_synonym sweep_result = "(string \<times> real) list"
type_synonym results = "(string \<times> sweep_result) list"

section \<open>Dictionaries and formatting\<close>

text \<open>
  A Python dict keeps insertion order; assigning to a key that is present replaces the
  value in place, assigning to a new key appends. That is \<open>AList.update\<close>. A dict
  display or comprehension inserts its items from left to right.
\<close>

definition dict_of :: "('k \<times> 'v) list \<Rightarrow> ('k \<times> 'v) list" where
  "dict_of kvs = foldl (\<lambda>d (k, v). AList.update k v d) [] kvs"

text \<open>\<open>d.get(k, default)\<close>, for a dict and for the flux series alike.\<close>

definition get_default :: "(string \<times> 'v) list \<Rightarrow> string \<Rightarrow> 'v \<Rightarrow> 'v" where
  "get_default d k dflt = (case map_of d k of Some v \<Rightarrow> v | None \<Rightarrow> dflt)"

text \<open>\<open>d[k]\<close>, which raises \<open>KeyError\<close> on a missing key.\<close>

definition subscript :: "(string \<times> 'v) list \<Rightarrow> string \<Rightarrow> error + 'v" where
  "subscript d k = (case map_of d k of Some v \<Rightarrow> Inr v | None \<Rightarrow> Inl (KeyError k))"

text \<open>
  The format specification \<open>.1f\<close>: the sign, the integer part, a point and one digit,
  the value rounded to the nearest tenth, a tie going to the even neighbour.
\<close>

definition digit_char :: "nat \<Rightarrow> char" where
  "digit_char d = ''0123456789'' ! (d mod 10)"

fun str_nat :: "nat \<Rightarrow> string" where
  "str_nat n = (if n < 10 then [digit_char n] else str_nat (n div 10) @ [digit_char (n mod 10)])"

definition round_half_even :: "real \<Rightarrow> int" where
  "round_half_even y =
     (let n = \<lfloor>y\<rfloor>; d = y - of_int n
      in if d < 1 / 2 then n else if 1 / 2 < d then n + 1 else if even n then n else n + 1)"

definition format_1f :: "real \<Rightarrow> string" where
  "format_1f x =
     (let n = nat (round_half_even (\<bar>x\<bar> * 10))
      in (if x < 0 then ''-'' else []) @ str_nat (n div 10) @ ''.'' @ [digit_char (n mod 10)])"

definition label :: "real \<Rightarrow> string" where
  "label factor = ''Factor_'' @ format_1f factor"

section \<open>run_fba_with_enhancement\<close>

definition base_constraints :: "(string \<times> real) list" where
  "base_constraints =
     [(''NADH16'', 1), (''CYTBD'', 1), (''CS'', 1), (''SUCDi'', 1), (''ATPS4r'', 1), (''O2t'', 1)]"

text \<open>
  \<open>rxn.upper_bound = value\<close>: the setter checks the bounds, then stores the value.
\<close>

definition set_upper_bound :: "reaction \<Rightarrow> real \<Rightarrow> error + reaction" where
  "set_upper_bound rxn v =
     (if v < lower_bound rxn then Inl (ValueError (lower_bound rxn) v)
      else Inr (rxn\<lparr>upper_bound := v\<rparr>))"

text \<open>
  Line 33: the reset of one reaction, and of all of them in the order of the model. The
  assignment is made also when the reaction has no marker, with the bound it has.
\<close>

definition reset_reaction :: "reaction \<Rightarrow> error + reaction" where
  "reset_reaction rxn =
     set_upper_bound rxn (case original_upper_bound rxn of
                            Some v \<Rightarrow> v | None \<Rightarrow> upper_bound rxn)"

fun reset_reactions :: "reaction list \<Rightarrow> error + reaction list" where
  "reset_reactions [] = Inr []"
| "reset_reactions (rxn # rest) =
     bind_err (reset_reaction rxn) (\<lambda>rxn'.
     bind_err (reset_reactions rest) (\<lambda>rest'. Inr (rxn' # rest')))"

definition reset_bounds :: "model \<Rightarrow> error + model" where
  "reset_bounds m = bind_err (reset_reactions (reactions m)) (\<lambda>rs. Inr (m\<lparr>reactions := rs\<rparr>))"

text \<open>Line 35: the table scaled by the factor, each multiplier capped at 4.\<close>

definition constraints :: "real \<Rightarrow> (string \<times> real) list" where
  "constraints factor = dict_of (map (\<lambda>(rxn, val). (rxn, min 4 (factor * val))) base_constraints)"

text \<open>
  \<open>rxn in model.reactions\<close> and \<open>model.reactions.get_by_id(rxn)\<close>: membership and
  lookup by identifier; the lookup gives the first reaction of that identifier.
\<close>

definition has_id :: "reaction list \<Rightarrow> string \<Rightarrow> bool" where
  "has_id rs r = (r \<in> set (map rid rs))"

fun get_by_id :: "reaction list \<Rightarrow> string \<Rightarrow> reaction option" where
  "get_by_id [] r = None"
| "get_by_id (x # xs) r = (if rid x = r then Some x else get_by_id xs r)"

text \<open>
  Line 39: \<open>get_by_id(rxn).upper_bound *= factor_val\<close>, an assignment to that
  reaction through the setter.
\<close>

fun scale_upper_bound :: "reaction list \<Rightarrow> string \<Rightarrow> real \<Rightarrow> error + reaction list" where
  "scale_upper_bound [] r v = Inr []"
| "scale_upper_bound (x # xs) r v =
     (if rid x = r
      then bind_err (set_upper_bound x (upper_bound x * v)) (\<lambda>x'. Inr (x' # xs))
      else bind_err (scale_upper_bound xs r v) (\<lambda>xs'. Inr (x # xs')))"

text \<open>
  Lines 37 to 40: one entry of the scaled table. The line is printed after the
  assignment, so a refused assignment prints nothing.
\<close>

definition apply_constraint ::
  "model \<times> event list \<Rightarrow> string \<times> real \<Rightarrow> error + (model \<times> event list)" where
  "apply_constraint st c =
     (case st of (m, out) \<Rightarrow> case c of (rxn, factor_val) \<Rightarrow>
        (case get_by_id (reactions m) rxn of
           None \<Rightarrow> Inr (m, out)
         | Some r \<Rightarrow>
             bind_err (scale_upper_bound (reactions m) rxn factor_val) (\<lambda>rs.
               Inr (m\<lparr>reactions := rs\<rparr>,
                    out @ [BoundChange rxn (upper_bound r) (upper_bound r * factor_val)]))))"

fun apply_constraints ::
  "model \<times> event list \<Rightarrow> (string \<times> real) list \<Rightarrow> error + (model \<times> event list)" where
  "apply_constraints st [] = Inr st"
| "apply_constraints st (c # cs) = bind_err (apply_constraint st c) (\<lambda>st'. apply_constraints st' cs)"

text \<open>
  Lines 43 to 46: the objective. \<open>model.reactions.BIOMASS_Ecoli_core_w_GAM\<close> is an
  attribute lookup by identifier, which raises \<open>AttributeError\<close> when the model has no
  such reaction; the keys of the display are evaluated in order.
\<close>

definition set_objective :: "model \<Rightarrow> error + model" where
  "set_objective m =
     (case get_by_id (reactions m) ''BIOMASS_Ecoli_core_w_GAM'' of
        None \<Rightarrow> Inl (AttributeError ''BIOMASS_Ecoli_core_w_GAM'')
      | Some b \<Rightarrow>
          (case get_by_id (reactions m) ''ATPM'' of
             None \<Rightarrow> Inl (AttributeError ''ATPM'')
           | Some a \<Rightarrow> Inr (m\<lparr>objective := dict_of [(rid b, 1 / 2), (rid a, 1 / 2)]\<rparr>)))"

text \<open>Lines 53 to 58: the record stored for an optimal solve.\<close>

definition flux_record :: "solution \<Rightarrow> sweep_result" where
  "flux_record sol =
     dict_of
       [(''ATP_production'', get_default (fluxes sol) ''ATPM'' 0),
        (''O2_consumption'', - get_default (fluxes sol) ''EX_o2_e'' 0),
        (''NADH_turnover'', get_default (fluxes sol) ''NADH16'' 0),
        (''growth_rate'', get_default (fluxes sol) ''BIOMASS_Ecoli_core_w_GAM'' 0)]"

text \<open>
  The part of an iteration before the solve (lines 31 to 46): reset, scaled overrides,
  objective.
\<close>

definition prepare :: "model \<Rightarrow> event list \<Rightarrow> real \<Rightarrow> error + (model \<times> event list)" where
  "prepare m out factor =
     bind_err (reset_bounds m) (\<lambda>m0.
     bind_err (apply_constraints (m0, out) (constraints factor)) (\<lambda>(m1, out1).
     bind_err (set_objective m1) (\<lambda>m2. Inr (m2, out1))))"

text \<open>
  The loop of lines 30 to 59. The state is the model (mutated in place by the source),
  the dict \<open>results\<close> and the printed events. \<open>continue\<close> on a status other than
  \<open>optimal\<close> goes to the next factor with \<open>results\<close> as it was.
\<close>

fun sweep :: "(model \<Rightarrow> solution) \<Rightarrow> model \<Rightarrow> results \<Rightarrow> event list \<Rightarrow> real list
              \<Rightarrow> error + (model \<times> results \<times> event list)" where
  "sweep optimize m res out [] = Inr (m, res, out)"
| "sweep optimize m res out (factor # rest) =
     (case prepare m out factor of
        Inl e \<Rightarrow> Inl e
      | Inr (m2, out1) \<Rightarrow>
          (let sol = optimize m2
           in if status sol \<noteq> ''optimal''
              then sweep optimize m2 res (out1 @ [SkipWarning (status sol) factor]) rest
              else sweep optimize m2
                     (AList.update (label factor) (flux_record sol) res)
                     (out1 @ [FluxSummary factor (take 5 (fluxes sol))]) rest))"

definition run_fba_with_enhancement ::
  "(model \<Rightarrow> solution) \<Rightarrow> model \<Rightarrow> real list \<Rightarrow> error + (model \<times> results \<times> event list)" where
  "run_fba_with_enhancement optimize m factor_range = sweep optimize m [] [] factor_range"

section \<open>The script: estimates and the flux-change summary\<close>

definition factor_range :: "real list" where
  "factor_range = [1, 2, 3, 4]"

text \<open>Lines 74 to 78: the table of estimates, one record for Native and one per factor.\<close>

definition estimated_results :: results where
  "estimated_results =
     dict_of
       ((''Native'',
         dict_of [(''ATP_production'', 8.39), (''O2_consumption'', 5),
                  (''NADH_turnover'', 10), (''growth_rate'', 1.00083)])
        # map (\<lambda>f. (label f,
                       dict_of [(''ATP_production'', 8.39 * f), (''O2_consumption'', 5 * f),
                                (''NADH_turnover'', 10 * f), (''growth_rate'', 1.00083 * f)]))
              factor_range)"

text \<open>\<open>d.update(other)\<close>: the items of \<open>other\<close> assigned in order.\<close>

definition dict_update :: "('k \<times> 'v) list \<Rightarrow> ('k \<times> 'v) list \<Rightarrow> ('k \<times> 'v) list" where
  "dict_update d other = foldl (\<lambda>d (k, v). AList.update k v d) d other"

text \<open>
  Line 81 for one key: the record of that key takes every item of its estimate whose
  field it has. The record is an object inside \<open>actual_results\<close>, so the dict sees the
  change under the same key.
\<close>

definition overwrite :: "results \<Rightarrow> string \<Rightarrow> error + results" where
  "overwrite actual key =
     bind_err (subscript actual key) (\<lambda>r.
     bind_err (subscript estimated_results key) (\<lambda>est.
       Inr (AList.update key
              (dict_update r (dict_of (filter (\<lambda>(k, v). k \<in> set (map fst r)) est)))
              actual)))"

text \<open>Lines 80 and 81 for one key; \<open>or\<close> looks at the growth rate only when it has to.\<close>

definition fill_key :: "results \<Rightarrow> string \<Rightarrow> error + results" where
  "fill_key actual key =
     bind_err (subscript actual key) (\<lambda>r.
     bind_err (subscript r ''ATP_production'') (\<lambda>atp.
       if atp = 0 then overwrite actual key
       else bind_err (subscript r ''growth_rate'') (\<lambda>g.
         if g = 0 then overwrite actual key else Inr actual)))"

fun fill_loop :: "results \<Rightarrow> string list \<Rightarrow> error + results" where
  "fill_loop actual [] = Inr actual"
| "fill_loop actual (key # keys) = bind_err (fill_key actual key) (\<lambda>a. fill_loop a keys)"

definition fill_estimates :: "results \<Rightarrow> error + results" where
  "fill_estimates actual = fill_loop actual (map fst actual)"

text \<open>
  Lines 99 to 108. \<open>max\<close> with a key function gives the first item whose key is
  greatest. The key function \<open>float(k.replace("Factor_", ""))\<close> is the parameter
  \<open>factor_of_key\<close>. \<open>sorted\<close> is stable, also with \<open>reverse=True\<close>.
\<close>

datatype report = TopFluxes "(string \<times> real) list" | Note string

fun max_by :: "('a \<Rightarrow> real) \<Rightarrow> 'a \<Rightarrow> 'a list \<Rightarrow> 'a" where
  "max_by key best [] = best"
| "max_by key best (x # xs) = max_by key (if key best < key x then x else best) xs"

definition flux_changes :: "reaction list \<Rightarrow> sweep_result \<Rightarrow> sweep_result \<Rightarrow> (string \<times> real) list" where
  "flux_changes rs hi native =
     dict_of
       (map (\<lambda>rxn. (rid rxn, get_default hi (rid rxn) 0 - get_default native (rid rxn) 0))
          (filter (\<lambda>rxn. 0.1 < \<bar>get_default hi (rid rxn) 0 - get_default native (rid rxn) 0\<bar>)
             rs))"

definition top_fluxes :: "(string \<times> real) list \<Rightarrow> (string \<times> real) list" where
  "top_fluxes changes = dict_of (take 5 (sort_key (\<lambda>x. - \<bar>snd x\<bar>) changes))"

definition top_flux_report :: "(string \<Rightarrow> real) \<Rightarrow> model \<Rightarrow> results \<Rightarrow> results \<Rightarrow> report" where
  "top_flux_report factor_of_key m res actual =
     (case map fst res of
        [] \<Rightarrow> Note ''No valid solutions''
      | k # ks \<Rightarrow>
          (let max_factor_key = max_by factor_of_key k ks
           in case (map_of actual ''Native'', map_of actual max_factor_key) of
                (Some native, Some hi) \<Rightarrow> TopFluxes (top_fluxes (flux_changes (reactions m) hi native))
              | _ \<Rightarrow> Note ''Insufficient data for flux changes''))"

text \<open>
  Lines 66 to 81 and 99 to 108 together: the sweep, the second run that gives the Native
  record, the estimates, the summary. The CSV file and the plot are left out.
\<close>

definition script :: "(model \<Rightarrow> solution) \<Rightarrow> (string \<Rightarrow> real) \<Rightarrow> model \<Rightarrow> error + (results \<times> report)" where
  "script optimize factor_of_key m =
     bind_err (run_fba_with_enhancement optimize m factor_range) (\<lambda>(m1, res, out1).
     bind_err (run_fba_with_enhancement optimize m1 [1]) (\<lambda>(m2, native_run, out2).
     bind_err (subscript native_run ''Factor_1.0'') (\<lambda>native_solution.
     bind_err (fill_estimates (dict_of ((''Native'', native_solution) # res))) (\<lambda>actual.
       Inr (actual, top_flux_report factor_of_key m2 res actual)))))"

section \<open>Vocabulary of the properties\<close>

text \<open>
  The predicates and observations the theorems are stated with. None of them is part of
  the script; each is defined from the definitions above.

  No reaction of the model has the attribute \<open>original_upper_bound\<close>.
\<close>

definition no_markers :: "model \<Rightarrow> bool" where
  "no_markers m = list_all (\<lambda>rxn. original_upper_bound rxn = None) (reactions m)"

text \<open>
  Every reaction has its lower bound at or below its upper bound, which the library's
  setters maintain.
\<close>

definition bounds_ordered :: "model \<Rightarrow> bool" where
  "bounds_ordered m = list_all (\<lambda>rxn. lower_bound rxn \<le> upper_bound rxn) (reactions m)"

text \<open>
  A model on which no assignment of the sweep is refused, whatever the factors as long
  as none is negative: no reaction has the marker, the bounds are ordered, every
  reaction that the override table names has zero within its bounds (as the six
  reactions of the table have in the model the script loads), and the two reactions of
  the objective are there.
\<close>

definition safe_reaction :: "reaction \<Rightarrow> bool" where
  "safe_reaction rxn =
     (original_upper_bound rxn = None \<and> lower_bound rxn \<le> upper_bound rxn \<and>
      (rid rxn \<in> set (map fst base_constraints) \<longrightarrow>
         lower_bound rxn \<le> 0 \<and> 0 \<le> upper_bound rxn))"

definition safe_model :: "model \<Rightarrow> bool" where
  "safe_model m =
     (list_all safe_reaction (reactions m) \<and>
      has_id (reactions m) ''BIOMASS_Ecoli_core_w_GAM'' \<and> has_id (reactions m) ''ATPM'')"

text \<open>
  What the reactions are after the assignment of line 39 when the setter accepts it,
  for one entry and for a whole scaled table.
\<close>

fun scaled :: "reaction list \<Rightarrow> string \<Rightarrow> real \<Rightarrow> reaction list" where
  "scaled [] r v = []"
| "scaled (x # xs) r v =
     (if rid x = r then x\<lparr>upper_bound := upper_bound x * v\<rparr> # xs
      else x # scaled xs r v)"

definition scale_all :: "reaction list \<Rightarrow> (string \<times> real) list \<Rightarrow> reaction list" where
  "scale_all rs cs = foldl (\<lambda>rs (r, v). scaled rs r v) rs cs"

text \<open>
  The solves the loop performs, in order, each with its factor: the calls of
  \<open>model.optimize()\<close> at line 47, on the model as the iteration has prepared it.
\<close>

fun solves :: "(model \<Rightarrow> solution) \<Rightarrow> model \<Rightarrow> real list \<Rightarrow> (real \<times> solution) list" where
  "solves optimize m [] = []"
| "solves optimize m (factor # rest) =
     (case prepare m [] factor of
        Inl e \<Rightarrow> []
      | Inr (m2, out1) \<Rightarrow> (factor, optimize m2) # solves optimize m2 rest)"

definition optimal_solves :: "(model \<Rightarrow> solution) \<Rightarrow> model \<Rightarrow> real list \<Rightarrow> (real \<times> solution) list" where
  "optimal_solves optimize m fs = filter (\<lambda>(f, sol). status sol = ''optimal'') (solves optimize m fs)"

text \<open>
  Every solve of the sweep returns the status \<open>optimal\<close>.
\<close>

definition all_optimal :: "(model \<Rightarrow> solution) \<Rightarrow> model \<Rightarrow> real list \<Rightarrow> bool" where
  "all_optimal optimize m fs = list_all (\<lambda>(f, sol). status sol = ''optimal'') (solves optimize m fs)"

text \<open>
  Line 53 for a list of solves: each record assigned under the label of its factor.
\<close>

definition store :: "results \<Rightarrow> (real \<times> solution) list \<Rightarrow> results" where
  "store res fsols = foldl (\<lambda>d (f, sol). AList.update (label f) (flux_record sol) d) res fsols"

text \<open>
  The entries those assignments make, one per solve: where two solves have the same
  label, the later assignment replaces the record of the earlier one.
\<close>

definition entries :: "(real \<times> solution) list \<Rightarrow> results" where
  "entries fsols = map (\<lambda>(f, sol). (label f, flux_record sol)) fsols"

text \<open>
  The number that a string of decimal digits denotes, for reading back what
  \<open>format_1f\<close> writes.
\<close>

definition digit_value :: "char \<Rightarrow> nat" where
  "digit_value c = of_char c - 48"

definition decimal_value :: "string \<Rightarrow> nat" where
  "decimal_value s = foldl (\<lambda>a c. 10 * a + digit_value c) 0 s"

text \<open>
  The event of line 49.
\<close>

fun is_warning :: "event \<Rightarrow> bool" where
  "is_warning (SkipWarning s f) = True"
| "is_warning e = False"

text \<open>
  The keys of the dict a run returns, when it returns.
\<close>

definition result_keys :: "error + (model \<times> results \<times> event list) \<Rightarrow> string list option" where
  "result_keys r = (case r of Inl e \<Rightarrow> None | Inr (m, res, out) \<Rightarrow> Some (map fst res))"

text \<open>
  The four fields of a record of lines 53 to 58, in their order.
\<close>

definition field_names :: "string list" where
  "field_names = [''ATP_production'', ''O2_consumption'', ''NADH_turnover'', ''growth_rate'']"

section \<open>Example inputs\<close>

text \<open>
  A small model with the two reactions of the objective, one reaction of the override
  table and the oxygen exchange, bounds as lines 10 to 12 set them; and solvers that
  stand for \<open>model.optimize()\<close>: one that always reports an optimum, one that reports
  an optimum only while the citrate synthase bound is at most 1000, one that reports
  the citrate synthase bound as the biomass flux, and one whose flux vector lacks the
  NADH16 and biomass reactions.
\<close>

definition example_model :: model where
  "example_model =
     \<lparr>reactions =
        [\<lparr>rid = ''BIOMASS_Ecoli_core_w_GAM'', lower_bound = 0, upper_bound = 1000, original_upper_bound = None\<rparr>,
         \<lparr>rid = ''ATPM'', lower_bound = 8.39, upper_bound = 1000, original_upper_bound = None\<rparr>,
         \<lparr>rid = ''CS'', lower_bound = 0, upper_bound = 1000, original_upper_bound = None\<rparr>,
         \<lparr>rid = ''EX_o2_e'', lower_bound = -25, upper_bound = -5, original_upper_bound = None\<rparr>],
      objective = []\<rparr>"

definition example_fluxes :: "(string \<times> real) list" where
  "example_fluxes = [(''ATPM'', 8.39), (''EX_o2_e'', -5), (''BIOMASS_Ecoli_core_w_GAM'', 1)]"

definition always_optimal :: "model \<Rightarrow> solution" where
  "always_optimal m = \<lparr>status = ''optimal'', fluxes = example_fluxes\<rparr>"

definition capacity_solver :: "model \<Rightarrow> solution" where
  "capacity_solver m =
     (case get_by_id (reactions m) ''CS'' of
        None \<Rightarrow> \<lparr>status = ''infeasible'', fluxes = []\<rparr>
      | Some r \<Rightarrow>
          if upper_bound r \<le> 1000 then \<lparr>status = ''optimal'', fluxes = example_fluxes\<rparr>
          else \<lparr>status = ''infeasible'', fluxes = []\<rparr>)"

definition echo_solver :: "model \<Rightarrow> solution" where
  "echo_solver m =
     \<lparr>status = ''optimal'',
      fluxes = (case get_by_id (reactions m) ''CS'' of
                  None \<Rightarrow> [] | Some r \<Rightarrow> [(''BIOMASS_Ecoli_core_w_GAM'', upper_bound r)])\<rparr>"

definition partial_solver :: "model \<Rightarrow> solution" where
  "partial_solver m = \<lparr>status = ''optimal'', fluxes = [(''ATPM'', 8.39), (''EX_o2_e'', -5)]\<rparr>"

text \<open>
  Two records of a results table, one with zeros; and two records that differ in every
  field by more than 0.1.
\<close>

definition example_actual :: results where
  "example_actual =
     [(''Native'', [(''ATP_production'', 0), (''O2_consumption'', 5), (''NADH_turnover'', 0), (''growth_rate'', 0)]),
      (''Factor_1.0'', [(''ATP_production'', 8.39), (''O2_consumption'', 5), (''NADH_turnover'', 0), (''growth_rate'', 1)])]"

definition native_estimate :: sweep_result where
  "native_estimate = [(''ATP_production'', 8.39), (''O2_consumption'', 5), (''NADH_turnover'', 10), (''growth_rate'', 1.00083)]"

definition example_native :: sweep_result where
  "example_native = [(''ATP_production'', 8.39), (''O2_consumption'', 5), (''NADH_turnover'', 10), (''growth_rate'', 1)]"

definition example_high :: sweep_result where
  "example_high = [(''ATP_production'', 33.56), (''O2_consumption'', 20), (''NADH_turnover'', 40), (''growth_rate'', 4)]"

section \<open>Properties of the bound overrides\<close>

text \<open>
  \<open>rxn in model.reactions\<close> holds exactly when the lookup finds a reaction, which is
  how \<open>apply_constraint\<close> tests it.
\<close>

lemma bind_err_Inr [simp]: "bind_err (Inr v) f = f v"
  by (simp add: bind_err_def)

lemma bind_err_Inl [simp]: "bind_err (Inl e) f = Inl e"
  by (simp add: bind_err_def)

lemma bind_err_eq_Inr: "bind_err r f = Inr y \<longleftrightarrow> (\<exists>v. r = Inr v \<and> f v = Inr y)"
  by (cases r) simp_all

lemma has_id_get_by_id: "has_id rs r \<longleftrightarrow> get_by_id rs r \<noteq> None"
  by (induction rs) (auto simp: has_id_def)

lemma get_by_id_rid: "get_by_id rs r = Some x \<Longrightarrow> rid x = r"
  by (induction rs) (auto split: if_splits)

lemma get_by_id_mem: "get_by_id rs r = Some x \<Longrightarrow> x \<in> set rs"
  by (induction rs) (auto split: if_splits)

lemma set_upper_bound_Inr:
  "set_upper_bound x v = Inr x' \<longleftrightarrow> lower_bound x \<le> v \<and> x' = x\<lparr>upper_bound := v\<rparr>"
  by (auto simp: set_upper_bound_def)

lemma reset_reaction_no_marker:
  assumes "original_upper_bound rxn = None"
  shows "reset_reaction rxn =
     (if upper_bound rxn < lower_bound rxn then Inl (ValueError (lower_bound rxn) (upper_bound rxn))
      else Inr rxn)"
  using assms by (simp add: reset_reaction_def set_upper_bound_def)

lemma reset_reactions_no_marker:
  assumes "list_all (\<lambda>rxn. original_upper_bound rxn = None) rs" and "reset_reactions rs = Inr rs'"
  shows "rs' = rs"
  using assms
proof (induction rs arbitrary: rs')
  case Nil
  then show ?case by simp
next
  case (Cons x xs)
  from Cons.prems(2) obtain x' xs' where x: "reset_reaction x = Inr x'"
    and xs: "reset_reactions xs = Inr xs'" and r: "rs' = x' # xs'"
    by (auto simp: bind_err_eq_Inr)
  from Cons.prems(1) x have "x' = x"
    by (simp add: reset_reaction_no_marker split: if_splits)
  moreover from Cons.IH [OF _ xs] Cons.prems(1) have "xs' = xs" by simp
  ultimately show ?case using r by simp
qed

lemma reset_reactions_ordered:
  assumes "list_all (\<lambda>rxn. original_upper_bound rxn = None) rs"
    and "list_all (\<lambda>rxn. lower_bound rxn \<le> upper_bound rxn) rs"
  shows "reset_reactions rs = Inr rs"
  using assms by (induction rs) (simp_all add: reset_reaction_no_marker)

lemma reset_reactions_frame:
  assumes "reset_reactions rs = Inr rs'"
  shows "map rid rs' = map rid rs"
  using assms
proof (induction rs arbitrary: rs')
  case Nil
  then show ?case by simp
next
  case (Cons x xs)
  from Cons.prems obtain x' xs' where x: "reset_reaction x = Inr x'"
    and xs: "reset_reactions xs = Inr xs'" and r: "rs' = x' # xs'"
    by (auto simp: bind_err_eq_Inr)
  from x have "rid x' = rid x"
    by (auto simp: reset_reaction_def set_upper_bound_Inr)
  with Cons.IH [OF xs] r show ?case by simp
qed

lemma reset_bounds_no_markers:
  assumes "no_markers m" and "reset_bounds m = Inr m0"
  shows "m0 = m"
proof -
  from assms(2) obtain rs where r: "reset_reactions (reactions m) = Inr rs"
    and m0: "m0 = m\<lparr>reactions := rs\<rparr>"
    by (auto simp: reset_bounds_def bind_err_eq_Inr)
  from reset_reactions_no_marker [OF assms(1) [unfolded no_markers_def] r] m0
  show ?thesis by simp
qed

lemma reset_bounds_ordered:
  assumes "no_markers m" and "bounds_ordered m"
  shows "reset_bounds m = Inr m"
  using reset_reactions_ordered [OF assms(1) [unfolded no_markers_def] assms(2) [unfolded bounds_ordered_def]]
  by (simp add: reset_bounds_def)

lemma reset_bounds_ids:
  assumes "reset_bounds m = Inr m0"
  shows "map rid (reactions m0) = map rid (reactions m)"
proof -
  from assms obtain rs where r: "reset_reactions (reactions m) = Inr rs"
    and m0: "m0 = m\<lparr>reactions := rs\<rparr>"
    by (auto simp: reset_bounds_def bind_err_eq_Inr)
  from reset_reactions_frame [OF r] m0 show ?thesis by simp
qed

lemma constraints_eq:
  "constraints factor = map (\<lambda>(rxn, val). (rxn, min 4 (factor * val))) base_constraints"
  by (simp add: constraints_def dict_of_def base_constraints_def)

lemma distinct_constraints: "distinct (map fst (constraints factor))"
  by (simp add: constraints_eq base_constraints_def)

lemma keys_constraints: "fst ` set (constraints factor) = fst ` set base_constraints"
  by (simp add: constraints_eq base_constraints_def)

lemma map_of_constraints:
  "map_of (constraints factor) r = map_option (\<lambda>val. min 4 (factor * val)) (map_of base_constraints r)"
  by (simp add: constraints_eq base_constraints_def)

lemma constraints_nonneg:
  assumes "0 \<le> factor" and "(r, v) \<in> set (constraints factor)"
  shows "0 \<le> v"
  using assms by (auto simp: constraints_eq base_constraints_def)

lemma scale_upper_bound_Inr:
  "scale_upper_bound rs r v = Inr rs' \<Longrightarrow> rs' = scaled rs r v"
  by (induction rs arbitrary: rs') (auto simp: bind_err_eq_Inr set_upper_bound_Inr split: if_splits)

lemma scale_upper_bound_accepts:
  assumes "get_by_id rs r = Some x" and "lower_bound x \<le> upper_bound x * v"
  shows "scale_upper_bound rs r v = Inr (scaled rs r v)"
  using assms by (induction rs) (auto simp: set_upper_bound_def)

lemma scale_upper_bound_refuses:
  assumes "get_by_id rs r = Some x" and "upper_bound x * v < lower_bound x"
  shows "scale_upper_bound rs r v = Inl (ValueError (lower_bound x) (upper_bound x * v))"
  using assms by (induction rs) (auto simp: set_upper_bound_def)

lemma scaled_absent: "get_by_id rs r = None \<Longrightarrow> scaled rs r v = rs"
  by (induction rs) (auto split: if_splits)

lemma get_by_id_scaled:
  "get_by_id (scaled rs r v) r' =
     (if r' = r then map_option (\<lambda>x. x\<lparr>upper_bound := upper_bound x * v\<rparr>) (get_by_id rs r)
      else get_by_id rs r')"
  by (induction rs) auto

lemma length_scaled [simp]: "length (scaled rs r v) = length rs"
  by (induction rs) auto

lemma scaled_nth:
  "i < length rs \<Longrightarrow>
   rid (scaled rs r v ! i) = rid (rs ! i) \<and>
   lower_bound (scaled rs r v ! i) = lower_bound (rs ! i) \<and>
   original_upper_bound (scaled rs r v ! i) = original_upper_bound (rs ! i) \<and>
   (rid (rs ! i) \<noteq> r \<longrightarrow> scaled rs r v ! i = rs ! i)"
proof (induction rs arbitrary: i)
  case Nil
  then show ?case by simp
next
  case (Cons x xs)
  then show ?case by (cases i) auto
qed

lemma map_rid_scaled: "map rid (scaled rs r v) = map rid rs"
  by (induction rs) auto

lemma scaled_safe:
  assumes "list_all safe_reaction rs" and "0 \<le> v" and "r \<in> set (map fst base_constraints)"
  shows "list_all safe_reaction (scaled rs r v)"
  using assms(1)
proof (induction rs)
  case Nil
  then show ?case by simp
next
  case (Cons x xs)
  show ?case
  proof (cases "rid x = r")
    case True
    from Cons.prems have s: "safe_reaction x" and xs: "list_all safe_reaction xs" by simp_all
    from s True assms(3) have b: "lower_bound x \<le> 0" "0 \<le> upper_bound x"
      and n: "original_upper_bound x = None"
      by (simp_all add: safe_reaction_def)
    from b(2) assms(2) have "0 \<le> upper_bound x * v" by simp
    with b(1) n have "safe_reaction (x\<lparr>upper_bound := upper_bound x * v\<rparr>)"
      by (simp add: safe_reaction_def)
    with xs True show ?thesis by simp
  next
    case False
    with Cons show ?thesis by simp
  qed
qed

lemma scale_all_Nil [simp]: "scale_all rs [] = rs"
  by (simp add: scale_all_def)

lemma scale_all_Cons: "scale_all rs ((r, v) # cs) = scale_all (scaled rs r v) cs"
  by (simp add: scale_all_def)

lemma length_scale_all [simp]: "length (scale_all rs cs) = length rs"
  by (induction cs arbitrary: rs) (auto simp: scale_all_def)

lemma map_rid_scale_all: "map rid (scale_all rs cs) = map rid rs"
  by (induction cs arbitrary: rs) (auto simp: scale_all_def map_rid_scaled)

lemma get_by_id_scale_all:
  "distinct (map fst cs) \<Longrightarrow>
   get_by_id (scale_all rs cs) r =
     (case map_of cs r of
        None \<Rightarrow> get_by_id rs r
      | Some v \<Rightarrow> map_option (\<lambda>x. x\<lparr>upper_bound := upper_bound x * v\<rparr>) (get_by_id rs r))"
proof (induction cs arbitrary: rs)
  case Nil
  then show ?case by simp
next
  case (Cons c cs)
  obtain r' v' where c: "c = (r', v')" by (cases c)
  from Cons.prems c have d: "distinct (map fst cs)" and n: "r' \<notin> fst ` set cs" by auto
  from n have none: "map_of cs r' = None" by (simp add: map_of_eq_None_iff)
  show ?case
    unfolding c scale_all_Cons Cons.IH [OF d] get_by_id_scaled
    by (auto simp: none split: option.splits)
qed

lemma scale_all_nth:
  "i < length rs \<Longrightarrow>
   rid (scale_all rs cs ! i) = rid (rs ! i) \<and>
   lower_bound (scale_all rs cs ! i) = lower_bound (rs ! i) \<and>
   original_upper_bound (scale_all rs cs ! i) = original_upper_bound (rs ! i) \<and>
   (rid (rs ! i) \<notin> fst ` set cs \<longrightarrow> scale_all rs cs ! i = rs ! i)"
proof (induction cs arbitrary: rs)
  case Nil
  then show ?case by simp
next
  case (Cons c cs)
  obtain r v where c: "c = (r, v)" by (cases c)
  have i: "i < length (scaled rs r v)" using Cons.prems by simp
  show ?case
    unfolding c scale_all_Cons
    using Cons.IH [OF i] scaled_nth [OF Cons.prems, of r v] by auto
qed

lemma distinct_dict_of_aux:
  "distinct (map fst d) \<Longrightarrow> distinct (map fst (foldl (\<lambda>d (k, v). AList.update k v d) d kvs))"
  by (induction kvs arbitrary: d) (auto simp: AList.distinct_update)

lemma distinct_dict_of: "distinct (map fst (dict_of kvs))"
  unfolding dict_of_def by (rule distinct_dict_of_aux) simp

lemma dict_of_aux_set:
  "set (foldl (\<lambda>d (k, v). AList.update k v d) d kvs) \<subseteq> set d \<union> set kvs"
proof (induction kvs arbitrary: d)
  case Nil
  then show ?case by simp
next
  case (Cons p kvs)
  obtain k v where p: "p = (k, v)" by (cases p)
  have "set (AList.update k v d) \<subseteq> insert (k, v) (set d)"
    by (induction d) auto
  with Cons.IH [of "AList.update k v d"] show ?case
    unfolding p by auto
qed

lemma set_dict_of: "set (dict_of kvs) \<subseteq> set kvs"
  unfolding dict_of_def using dict_of_aux_set [of "[]" kvs] by simp

section \<open>Properties of one iteration\<close>

lemma apply_constraint_absent:
  "get_by_id (reactions m) r = None \<Longrightarrow> apply_constraint (m, out) (r, v) = Inr (m, out)"
  by (simp add: apply_constraint_def)

lemma apply_constraint_accepts:
  assumes "get_by_id (reactions m) r = Some x" and "lower_bound x \<le> upper_bound x * v"
  shows "apply_constraint (m, out) (r, v) =
           Inr (m\<lparr>reactions := scaled (reactions m) r v\<rparr>,
                out @ [BoundChange r (upper_bound x) (upper_bound x * v)])"
  by (simp add: apply_constraint_def assms(1) scale_upper_bound_accepts [OF assms])

lemma apply_constraint_refuses:
  assumes "get_by_id (reactions m) r = Some x" and "upper_bound x * v < lower_bound x"
  shows "apply_constraint (m, out) (r, v) = Inl (ValueError (lower_bound x) (upper_bound x * v))"
  by (simp add: apply_constraint_def assms(1) scale_upper_bound_refuses [OF assms])

lemma apply_constraint_model:
  assumes "apply_constraint (m, out) (r, v) = Inr (m', out')"
  shows "m' = m\<lparr>reactions := scaled (reactions m) r v\<rparr>"
proof (cases "get_by_id (reactions m) r")
  case None
  with assms show ?thesis by (simp add: apply_constraint_absent scaled_absent)
next
  case (Some x)
  with assms obtain rs where "scale_upper_bound (reactions m) r v = Inr rs"
    and "m' = m\<lparr>reactions := rs\<rparr>"
    by (auto simp: apply_constraint_def bind_err_eq_Inr)
  with scale_upper_bound_Inr show ?thesis by blast
qed

lemma apply_constraints_model:
  assumes "apply_constraints (m, out) cs = Inr (m', out')"
  shows "m' = m\<lparr>reactions := scale_all (reactions m) cs\<rparr>"
  using assms
proof (induction cs arbitrary: m out)
  case Nil
  then show ?case by simp
next
  case (Cons c cs)
  obtain r v where c: "c = (r, v)" by (cases c)
  from Cons.prems obtain m1 out1 where s: "apply_constraint (m, out) (r, v) = Inr (m1, out1)"
    and t: "apply_constraints (m1, out1) cs = Inr (m', out')"
    by (auto simp: c bind_err_eq_Inr)
  have m1: "m1 = m\<lparr>reactions := scaled (reactions m) r v\<rparr>"
    by (rule apply_constraint_model [OF s])
  from Cons.IH [OF t] show ?case by (simp add: m1 c scale_all_Cons)
qed

lemma apply_constraint_out:
  "apply_constraint (m, out) c =
     (case apply_constraint (m, []) c of Inl e \<Rightarrow> Inl e | Inr (m', ev) \<Rightarrow> Inr (m', out @ ev))"
  by (cases c) (simp add: apply_constraint_def bind_err_def split: option.splits sum.splits)

lemma apply_constraints_out:
  "apply_constraints (m, out) cs =
     (case apply_constraints (m, []) cs of Inl e \<Rightarrow> Inl e | Inr (m', ev) \<Rightarrow> Inr (m', out @ ev))"
proof (induction cs arbitrary: m out)
  case Nil
  then show ?case by simp
next
  case (Cons c cs)
  show ?case
  proof (cases "apply_constraint (m, []) c")
    case (Inl e)
    then show ?thesis by (simp add: apply_constraint_out [of m out c])
  next
    case (Inr st)
    obtain m1 e1 where st: "st = (m1, e1)" by (cases st)
    have a: "apply_constraint (m, out) c = Inr (m1, out @ e1)"
      using apply_constraint_out [of m out c] Inr st by simp
    show ?thesis
      using Cons.IH [of m1 "out @ e1"] Cons.IH [of m1 e1]
      by (simp add: a Inr st split: sum.splits)
  qed
qed

lemma apply_constraint_no_warning:
  assumes "apply_constraint (m, out) c = Inr (m', out')" and "\<forall>e\<in>set out. \<not> is_warning e"
  shows "\<forall>e\<in>set out'. \<not> is_warning e"
  using assms
  by (cases c) (auto simp: apply_constraint_def bind_err_eq_Inr split: option.splits)

lemma apply_constraints_no_warning:
  assumes "apply_constraints (m, out) cs = Inr (m', out')" and "\<forall>e\<in>set out. \<not> is_warning e"
  shows "\<forall>e\<in>set out'. \<not> is_warning e"
  using assms
proof (induction cs arbitrary: m out)
  case Nil
  then show ?case by simp
next
  case (Cons c cs)
  from Cons.prems(1) obtain m1 out1 where s: "apply_constraint (m, out) c = Inr (m1, out1)"
    and t: "apply_constraints (m1, out1) cs = Inr (m', out')"
    by (auto simp: bind_err_eq_Inr)
  from Cons.IH [OF t apply_constraint_no_warning [OF s Cons.prems(2)]] show ?case .
qed

lemma apply_constraints_safe:
  assumes "list_all safe_reaction (reactions m)"
    and "\<forall>(r, v)\<in>set cs. 0 \<le> v \<and> r \<in> set (map fst base_constraints)"
  shows "\<exists>out'. apply_constraints (m, out) cs = Inr (m\<lparr>reactions := scale_all (reactions m) cs\<rparr>, out') \<and>
           list_all safe_reaction (scale_all (reactions m) cs)"
  using assms
proof (induction cs arbitrary: m out)
  case Nil
  then show ?case by simp
next
  case (Cons c cs)
  obtain r v where c: "c = (r, v)" by (cases c)
  from Cons.prems(2) c have v: "0 \<le> v" and r: "r \<in> set (map fst base_constraints)"
    and rest: "\<forall>(r, v)\<in>set cs. 0 \<le> v \<and> r \<in> set (map fst base_constraints)" by auto
  let ?m1 = "m\<lparr>reactions := scaled (reactions m) r v\<rparr>"
  have "\<exists>out1. apply_constraint (m, out) (r, v) = Inr (?m1, out1)"
  proof (cases "get_by_id (reactions m) r")
    case None
    then show ?thesis by (simp add: apply_constraint_absent scaled_absent)
  next
    case (Some x)
    from get_by_id_mem [OF Some] Cons.prems(1) have "safe_reaction x"
      by (simp add: list_all_iff)
    with get_by_id_rid [OF Some] r have "lower_bound x \<le> 0" "0 \<le> upper_bound x"
      by (simp_all add: safe_reaction_def)
    with v have "lower_bound x \<le> upper_bound x * v"
      by (meson mult_nonneg_nonneg order_trans)
    from apply_constraint_accepts [OF Some this] show ?thesis by blast
  qed
  then obtain out1 where s: "apply_constraint (m, out) (r, v) = Inr (?m1, out1)" ..
  have safe1: "list_all safe_reaction (reactions ?m1)"
    using scaled_safe [OF Cons.prems(1) v r] by simp
  from Cons.IH [OF safe1 rest, of out1] obtain out' where
    t: "apply_constraints (?m1, out1) cs = Inr (?m1\<lparr>reactions := scale_all (reactions ?m1) cs\<rparr>, out')"
    and u: "list_all safe_reaction (scale_all (reactions ?m1) cs)" by blast
  show ?case
    using t u by (simp add: c s scale_all_Cons)
qed

lemma set_objective_reactions: "set_objective m = Inr m2 \<Longrightarrow> reactions m2 = reactions m"
  by (auto simp: set_objective_def split: option.splits)

lemma set_objective_Inr_iff:
  "(\<exists>m2. set_objective m = Inr m2) \<longleftrightarrow>
   has_id (reactions m) ''BIOMASS_Ecoli_core_w_GAM'' \<and> has_id (reactions m) ''ATPM''"
  by (auto simp: set_objective_def has_id_get_by_id split: option.splits)

lemma set_objective_objective:
  assumes "set_objective m = Inr m2"
  shows "objective m2 = [(''BIOMASS_Ecoli_core_w_GAM'', 1 / 2), (''ATPM'', 1 / 2)]"
proof -
  from assms obtain b a where b: "get_by_id (reactions m) ''BIOMASS_Ecoli_core_w_GAM'' = Some b"
    and a: "get_by_id (reactions m) ''ATPM'' = Some a"
    and m2: "m2 = m\<lparr>objective := dict_of [(rid b, 1 / 2), (rid a, 1 / 2)]\<rparr>"
    by (auto simp: set_objective_def split: option.splits)
  show ?thesis
    unfolding m2 get_by_id_rid [OF b] get_by_id_rid [OF a] by (simp add: dict_of_def)
qed

lemma prepare_Inr:
  assumes "prepare m out factor = Inr (m2, out1)"
  obtains m0 m1 where "reset_bounds m = Inr m0"
    and "apply_constraints (m0, out) (constraints factor) = Inr (m1, out1)"
    and "set_objective m1 = Inr m2"
  using assms by (auto simp: prepare_def bind_err_eq_Inr)

lemma prepare_reactions:
  assumes "prepare m out factor = Inr (m2, out1)" and "no_markers m"
  shows "reactions m2 = scale_all (reactions m) (constraints factor)"
proof -
  from assms(1) obtain m0 m1 where r: "reset_bounds m = Inr m0"
    and a: "apply_constraints (m0, out) (constraints factor) = Inr (m1, out1)"
    and s: "set_objective m1 = Inr m2" by (rule prepare_Inr)
  have "m0 = m" by (rule reset_bounds_no_markers [OF assms(2) r])
  with apply_constraints_model [OF a] set_objective_reactions [OF s] show ?thesis by simp
qed

lemma prepare_ids:
  assumes "prepare m out factor = Inr (m2, out1)"
  shows "map rid (reactions m2) = map rid (reactions m)"
proof -
  from assms obtain m0 m1 where r: "reset_bounds m = Inr m0"
    and a: "apply_constraints (m0, out) (constraints factor) = Inr (m1, out1)"
    and s: "set_objective m1 = Inr m2" by (rule prepare_Inr)
  from apply_constraints_model [OF a] set_objective_reactions [OF s] reset_bounds_ids [OF r]
  show ?thesis by (simp add: map_rid_scale_all)
qed

lemma prepare_has_ids:
  assumes "prepare m out factor = Inr (m2, out1)"
  shows "has_id (reactions m) ''BIOMASS_Ecoli_core_w_GAM'' \<and> has_id (reactions m) ''ATPM''"
proof -
  from assms obtain m0 m1 where r: "reset_bounds m = Inr m0"
    and a: "apply_constraints (m0, out) (constraints factor) = Inr (m1, out1)"
    and s: "set_objective m1 = Inr m2" by (rule prepare_Inr)
  from s have "has_id (reactions m1) ''BIOMASS_Ecoli_core_w_GAM'' \<and> has_id (reactions m1) ''ATPM''"
    using set_objective_Inr_iff [of m1] by blast
  moreover have "map rid (reactions m1) = map rid (reactions m)"
    using apply_constraints_model [OF a] reset_bounds_ids [OF r] by (simp add: map_rid_scale_all)
  ultimately show ?thesis by (simp add: has_id_def)
qed

lemma prepare_objective:
  assumes "prepare m out f = Inr (m2, out1)"
  shows "objective m2 = [(''BIOMASS_Ecoli_core_w_GAM'', 1 / 2), (''ATPM'', 1 / 2)]"
proof -
  from assms obtain m0 m1 where "set_objective m1 = Inr m2" by (rule prepare_Inr)
  then show ?thesis by (rule set_objective_objective)
qed

lemma prepare_no_markers:
  assumes "prepare m out factor = Inr (m2, out1)" and "no_markers m"
  shows "no_markers m2"
proof -
  have r: "reactions m2 = scale_all (reactions m) (constraints factor)"
    by (rule prepare_reactions [OF assms])
  show ?thesis
    unfolding no_markers_def list_all_length r
  proof (intro allI impI)
    fix i assume "i < length (scale_all (reactions m) (constraints factor))"
    then have i: "i < length (reactions m)" by simp
    from assms(2) i have "original_upper_bound (reactions m ! i) = None"
      by (simp add: no_markers_def list_all_length)
    with scale_all_nth [OF i, of "constraints factor"]
    show "original_upper_bound (scale_all (reactions m) (constraints factor) ! i) = None" by simp
  qed
qed

lemma prepare_upper_bound:
  assumes "prepare m out factor = Inr (m2, out1)" and "no_markers m"
    and "get_by_id (reactions m) r = Some x" and "map_of base_constraints r = Some b"
  shows "get_by_id (reactions m2) r = Some (x\<lparr>upper_bound := upper_bound x * min 4 (factor * b)\<rparr>)"
  unfolding prepare_reactions [OF assms(1,2)] get_by_id_scale_all [OF distinct_constraints]
    map_of_constraints
  by (simp add: assms(3,4))

lemma prepare_out:
  "prepare m out factor =
     (case prepare m [] factor of Inl e \<Rightarrow> Inl e | Inr (m2, ev) \<Rightarrow> Inr (m2, out @ ev))"
proof (cases "reset_bounds m")
  case (Inl e)
  then show ?thesis by (simp add: prepare_def)
next
  case (Inr m0)
  show ?thesis
    unfolding prepare_def Inr bind_err_Inr
    by (subst apply_constraints_out) (simp add: bind_err_def split: sum.splits prod.splits)
qed

lemma prepare_no_warning:
  assumes "prepare m [] factor = Inr (m2, ev)"
  shows "\<forall>e\<in>set ev. \<not> is_warning e"
proof -
  from assms obtain m0 m1 where
    a: "apply_constraints (m0, []) (constraints factor) = Inr (m1, ev)" by (rule prepare_Inr)
  show ?thesis by (rule apply_constraints_no_warning [OF a]) simp
qed

lemma prepare_events:
  assumes "prepare m out f = Inr (m2, out1)"
  shows "\<exists>ev. out1 = out @ ev \<and> (\<forall>e\<in>set ev. \<not> is_warning e)"
proof -
  from assms obtain ev where p: "prepare m [] f = Inr (m2, ev)" and o: "out1 = out @ ev"
    by (subst (asm) prepare_out) (auto split: sum.splits)
  from prepare_no_warning [OF p] o show ?thesis by blast
qed

lemma safe_model_no_markers: "safe_model m \<Longrightarrow> no_markers m"
  by (simp add: safe_model_def no_markers_def safe_reaction_def list_all_iff)

lemma safe_model_ordered: "safe_model m \<Longrightarrow> bounds_ordered m"
  by (simp add: safe_model_def bounds_ordered_def safe_reaction_def list_all_iff)

lemma prepare_safe:
  assumes "safe_model m" and "0 \<le> factor"
  shows "\<exists>m2 out1. prepare m out factor = Inr (m2, out1) \<and> safe_model m2"
proof -
  have r: "reset_bounds m = Inr m"
    by (rule reset_bounds_ordered [OF safe_model_no_markers [OF assms(1)] safe_model_ordered [OF assms(1)]])
  from assms(1) have s: "list_all safe_reaction (reactions m)" by (simp add: safe_model_def)
  have c: "\<forall>(r, v)\<in>set (constraints factor). 0 \<le> v \<and> r \<in> set (map fst base_constraints)"
    using constraints_nonneg [OF assms(2)] keys_constraints [of factor] by force
  let ?m1 = "m\<lparr>reactions := scale_all (reactions m) (constraints factor)\<rparr>"
  from apply_constraints_safe [OF s c, of out] obtain out1 where
    a: "apply_constraints (m, out) (constraints factor) = Inr (?m1, out1)"
    and u: "list_all safe_reaction (scale_all (reactions m) (constraints factor))" by blast
  from assms(1) have h: "has_id (reactions ?m1) ''BIOMASS_Ecoli_core_w_GAM''"
    "has_id (reactions ?m1) ''ATPM''"
    by (simp_all add: safe_model_def has_id_def map_rid_scale_all)
  then obtain m2 where o: "set_objective ?m1 = Inr m2"
    using set_objective_Inr_iff [of ?m1] by blast
  have p: "prepare m out factor = Inr (m2, out1)"
    by (simp add: prepare_def r a o)
  have "reactions m2 = reactions ?m1" by (rule set_objective_reactions [OF o])
  with u h have "safe_model m2" by (simp add: safe_model_def has_id_def)
  with p show ?thesis by blast
qed

lemma flux_record_eq:
  "flux_record sol =
     [(''ATP_production'', get_default (fluxes sol) ''ATPM'' 0),
      (''O2_consumption'', - get_default (fluxes sol) ''EX_o2_e'' 0),
      (''NADH_turnover'', get_default (fluxes sol) ''NADH16'' 0),
      (''growth_rate'', get_default (fluxes sol) ''BIOMASS_Ecoli_core_w_GAM'' 0)]"
  by (simp add: flux_record_def dict_of_def)

section \<open>Properties of the sweep\<close>

lemma sweep_step:
  assumes "prepare m out factor = Inr (m2, out1)"
  shows "sweep optimize m res out (factor # rest) =
     (if status (optimize m2) \<noteq> ''optimal''
      then sweep optimize m2 res (out1 @ [SkipWarning (status (optimize m2)) factor]) rest
      else sweep optimize m2 (AList.update (label factor) (flux_record (optimize m2)) res)
             (out1 @ [FluxSummary factor (take 5 (fluxes (optimize m2)))]) rest)"
  using assms by (simp add: Let_def)

lemma sweep_single:
  assumes "prepare m out f = Inr (m2, out1)"
  shows "sweep optimize m res out [f] =
     (if status (optimize m2) \<noteq> ''optimal''
      then Inr (m2, res, out1 @ [SkipWarning (status (optimize m2)) f])
      else Inr (m2, AList.update (label f) (flux_record (optimize m2)) res,
                out1 @ [FluxSummary f (take 5 (fluxes (optimize m2)))]))"
  unfolding sweep_step [OF assms] by simp

lemma sweep_Inr_prepare:
  assumes "sweep optimize m res out (factor # rest) = Inr r"
  obtains m2 out1 where "prepare m out factor = Inr (m2, out1)"
  using assms by (cases "prepare m out factor") auto

lemma foldl_mult_prod_list: "foldl (*) (u::real) xs = u * prod_list xs"
  by (induction xs arbitrary: u) (simp_all add: mult.assoc)

lemma sweep_upper_bound:
  assumes "sweep optimize m res out fs = Inr (m', res', out')" and "no_markers m"
    and "get_by_id (reactions m) r = Some x" and "map_of base_constraints r = Some b"
  shows "get_by_id (reactions m') r =
           Some (x\<lparr>upper_bound := foldl (*) (upper_bound x) (map (\<lambda>f. min 4 (f * b)) fs)\<rparr>)"
  using assms(1,2,3)
proof (induction fs arbitrary: m res out x)
  case Nil
  then show ?case by simp
next
  case (Cons f fs)
  from Cons.prems(1) obtain m2 out1 where p: "prepare m out f = Inr (m2, out1)"
    by (rule sweep_Inr_prepare)
  have nm: "no_markers m2" using prepare_no_markers [OF p Cons.prems(2)] .
  have g: "get_by_id (reactions m2) r = Some (x\<lparr>upper_bound := upper_bound x * min 4 (f * b)\<rparr>)"
    using prepare_upper_bound [OF p Cons.prems(2,3) assms(4)] .
  from Cons.prems(1) obtain res2 out2 where
    s: "sweep optimize m2 res2 out2 fs = Inr (m', res', out')"
    unfolding sweep_step [OF p] by (auto split: if_splits)
  show ?case using Cons.IH [OF s nm g] by simp
qed

lemma sweep_no_markers:
  assumes "sweep optimize m res out fs = Inr (m', res', out')" and "no_markers m"
  shows "no_markers m'"
  using assms
proof (induction fs arbitrary: m res out)
  case Nil
  then show ?case by simp
next
  case (Cons f fs)
  from Cons.prems(1) obtain m2 out1 where p: "prepare m out f = Inr (m2, out1)"
    by (rule sweep_Inr_prepare)
  from Cons.prems(1) obtain res2 out2 where
    s: "sweep optimize m2 res2 out2 fs = Inr (m', res', out')"
    unfolding sweep_step [OF p] by (auto split: if_splits)
  from Cons.IH [OF s prepare_no_markers [OF p Cons.prems(2)]] show ?case .
qed

lemma solves_step:
  assumes "prepare m out factor = Inr (m2, out1)"
  shows "solves optimize m (factor # rest) = (factor, optimize m2) # solves optimize m2 rest"
proof -
  from assms obtain ev where "prepare m [] factor = Inr (m2, ev)"
    by (subst (asm) prepare_out) (auto split: sum.splits)
  then show ?thesis by simp
qed

lemma length_solves:
  assumes "sweep optimize m res out fs = Inr r"
  shows "map fst (solves optimize m fs) = fs"
  using assms
proof (induction fs arbitrary: m res out)
  case Nil
  then show ?case by simp
next
  case (Cons f fs)
  from Cons.prems obtain m2 out1 where p: "prepare m out f = Inr (m2, out1)"
    by (rule sweep_Inr_prepare)
  from Cons.prems obtain res2 out2 where "sweep optimize m2 res2 out2 fs = Inr r"
    unfolding sweep_step [OF p] by (auto split: if_splits)
  from Cons.IH [OF this] show ?case by (simp add: solves_step [OF p] del: solves.simps)
qed

lemma store_Nil [simp]: "store res [] = res"
  by (simp add: store_def)

lemma store_Cons [simp]:
  "store res ((f, sol) # fsols) = store (AList.update (label f) (flux_record sol) res) fsols"
  by (simp add: store_def)

lemma sweep_results:
  assumes "sweep optimize m res out fs = Inr (m', res', out')"
  shows "res' = store res (optimal_solves optimize m fs)"
  using assms
proof (induction fs arbitrary: m res out)
  case Nil
  then show ?case by (simp add: store_def optimal_solves_def)
next
  case (Cons f fs)
  from Cons.prems obtain m2 out1 where p: "prepare m out f = Inr (m2, out1)"
    by (rule sweep_Inr_prepare)
  show ?case
  proof (cases "status (optimize m2) = ''optimal''")
    case True
    with Cons.prems have "sweep optimize m2 (AList.update (label f) (flux_record (optimize m2)) res)
        (out1 @ [FluxSummary f (take 5 (fluxes (optimize m2)))]) fs = Inr (m', res', out')"
      unfolding sweep_step [OF p] by simp
    from Cons.IH [OF this] show ?thesis
      by (simp add: optimal_solves_def solves_step [OF p] True store_def del: solves.simps)
  next
    case False
    with Cons.prems have "sweep optimize m2 res (out1 @ [SkipWarning (status (optimize m2)) f]) fs
        = Inr (m', res', out')"
      unfolding sweep_step [OF p] by simp
    from Cons.IH [OF this] show ?thesis
      by (simp add: optimal_solves_def solves_step [OF p] False store_def del: solves.simps)
  qed
qed

lemma store_keys: "fst ` set (store res fsols) = fst ` set res \<union> (\<lambda>(f, sol). label f) ` set fsols"
proof (induction fsols arbitrary: res)
  case Nil
  then show ?case by simp
next
  case (Cons p fsols)
  obtain f sol where p: "p = (f, sol)" by (cases p)
  show ?case
    unfolding p store_Cons Cons.IH AList.dom_update by auto
qed

lemma store_keys_distinct:
  "distinct (map fst res @ map (\<lambda>(f, sol). label f) fsols) \<Longrightarrow>
   map fst (store res fsols) = map fst res @ map (\<lambda>(f, sol). label f) fsols"
proof (induction fsols arbitrary: res)
  case Nil
  then show ?case by (simp add: store_def)
next
  case (Cons p fsols)
  obtain f sol where p: "p = (f, sol)" by (cases p)
  let ?res = "AList.update (label f) (flux_record sol) res"
  from Cons.prems p have k: "map fst ?res = map fst res @ [label f]"
    by (simp add: AList.update_keys)
  from Cons.prems p have "distinct (map fst ?res @ map (\<lambda>(f, sol). label f) fsols)"
    unfolding k by auto
  from Cons.IH [OF this] show ?case
    by (simp add: store_def p k)
qed

lemma distinct_store: "distinct (map fst res) \<Longrightarrow> distinct (map fst (store res fsols))"
  by (induction fsols arbitrary: res) (auto simp: store_def AList.distinct_update)

lemma snd_update:
  "r \<in> snd ` set (AList.update k v al) \<Longrightarrow> r = v \<or> r \<in> snd ` set al"
  by (induction al) (auto split: if_splits)

lemma store_records:
  "\<forall>r\<in>snd ` set res. map fst r = field_names \<Longrightarrow>
   \<forall>r\<in>snd ` set (store res fsols). map fst r = field_names"
proof (induction fsols arbitrary: res)
  case Nil
  then show ?case by simp
next
  case (Cons p fsols)
  obtain f sol where p: "p = (f, sol)" by (cases p)
  have fr: "map fst (flux_record sol) = field_names"
    by (simp add: flux_record_eq field_names_def)
  have "\<forall>r\<in>snd ` set (AList.update (label f) (flux_record sol) res). map fst r = field_names"
  proof
    fix r assume "r \<in> snd ` set (AList.update (label f) (flux_record sol) res)"
    then have "r = flux_record sol \<or> r \<in> snd ` set res" by (rule snd_update)
    with fr Cons.prems show "map fst r = field_names" by blast
  qed
  from Cons.IH [OF this] show ?case by (simp only: p store_Cons)
qed

lemma sweep_keys_subset:
  assumes "sweep optimize m [] out fs = Inr (m', res', out')"
  shows "fst ` set res' \<subseteq> label ` set fs"
proof -
  have "set (optimal_solves optimize m fs) \<subseteq> set (solves optimize m fs)"
    by (simp add: optimal_solves_def)
  moreover have "fst ` set (solves optimize m fs) = set fs"
    using length_solves [OF assms] by (metis list.set_map)
  ultimately have "(\<lambda>(f, sol). label f) ` set (optimal_solves optimize m fs) \<subseteq> label ` set fs"
    by force
  then show ?thesis
    unfolding sweep_results [OF assms] store_keys by simp
qed

lemma label_fst: "(\<lambda>(f, sol). label f) = label \<circ> fst"
  by auto

lemma format_1f_shape:
  "\<exists>ip d. format_1f x = ip @ [CHR ''.'', d] \<and> d \<in> set ''0123456789''"
proof -
  define n where "n = nat (round_half_even (\<bar>x\<bar> * 10))"
  have "digit_char (n mod 10) \<in> set ''0123456789''"
    unfolding digit_char_def by (rule nth_mem) simp
  moreover have "format_1f x =
      ((if x < 0 then ''-'' else []) @ str_nat (n div 10)) @ [CHR ''.'', digit_char (n mod 10)]"
    by (simp add: format_1f_def n_def Let_def)
  ultimately show ?thesis by blast
qed

lemma sweep_Inr_has_ids:
  assumes "sweep optimize m res out (f # rest) = Inr r"
  shows "has_id (reactions m) ''BIOMASS_Ecoli_core_w_GAM'' \<and> has_id (reactions m) ''ATPM''"
proof -
  from assms obtain m2 out1 where "prepare m out f = Inr (m2, out1)" by (rule sweep_Inr_prepare)
  then show ?thesis by (rule prepare_has_ids)
qed

lemma sweep_safe:
  assumes "safe_model m" and "list_all (\<lambda>f. 0 \<le> f) fs"
  shows "\<exists>m' res' out'. sweep optimize m res out fs = Inr (m', res', out') \<and> safe_model m'"
  using assms
proof (induction fs arbitrary: m res out)
  case Nil
  then show ?case by simp
next
  case (Cons f fs)
  from Cons.prems(2) have f: "0 \<le> f" and fs: "list_all (\<lambda>f. 0 \<le> f) fs" by simp_all
  from prepare_safe [OF Cons.prems(1) f, of out] obtain m2 out1 where
    p: "prepare m out f = Inr (m2, out1)" and s: "safe_model m2" by blast
  show ?case
    unfolding sweep_step [OF p] using Cons.IH [OF s fs] by simp
qed

lemma map_of_store:
  "map_of (store res fsols) = map_of (rev (entries fsols) @ res)"
proof (induction fsols arbitrary: res)
  case Nil
  then show ?case by (simp add: entries_def)
next
  case (Cons p fsols)
  obtain f sol where p: "p = (f, sol)" by (cases p)
  have "map_of (store res (p # fsols)) =
        map_of (rev (entries fsols) @ AList.update (label f) (flux_record sol) res)"
    unfolding p store_Cons by (rule Cons.IH)
  also have "\<dots> = map_of (rev (entries fsols) @ (label f, flux_record sol) # res)"
    by (simp add: map_of_append AList.update_conv')
  finally show ?case by (simp add: entries_def p)
qed

lemma store_last:
  assumes "fsols = xs @ (f, sol) # ys" and "label f \<notin> label ` fst ` set ys"
  shows "map_of (store res fsols) (label f) = Some (flux_record sol)"
proof -
  have "fst ` set (rev (entries ys)) = label ` fst ` set ys"
    by (force simp: entries_def)
  with assms(2) have n: "map_of (rev (entries ys)) (label f) = None"
    by (simp add: map_of_eq_None_iff)
  have "rev (entries fsols) @ res =
        rev (entries ys) @ (label f, flux_record sol) # (rev (entries xs) @ res)"
    by (simp add: assms(1) entries_def)
  then show ?thesis
    unfolding map_of_store by (simp add: map_of_append n map_add_def)
qed

text \<open>
  On a safe model and factors that are not negative no assignment is refused and the
  objective is found, so the sweep returns whatever the solver reports.
\<close>

lemma sweep_returns:
  assumes "safe_model m" and "list_all (\<lambda>f. 0 \<le> f) fs"
  obtains m' res' out' where "sweep optimize m res out fs = Inr (m', res', out')"
  using sweep_safe [OF assms] by blast

lemma run_returns:
  assumes "safe_model m" and "list_all (\<lambda>f. 0 \<le> f) fs"
  obtains m' res' out' where "run_fba_with_enhancement optimize m fs = Inr (m', res', out')"
  unfolding run_fba_with_enhancement_def using sweep_safe [OF assms] by blast

lemma prepare_returns:
  assumes "safe_model m" and "0 \<le> factor"
  obtains m2 out1 where "prepare m out factor = Inr (m2, out1)"
  using prepare_safe [OF assms] by blast

section \<open>Properties of the format\<close>

declare str_nat.simps [simp del]

lemma digit_cases:
  assumes "k < (10::nat)"
  shows "k = 0 \<or> k = 1 \<or> k = 2 \<or> k = 3 \<or> k = 4 \<or> k = 5 \<or> k = 6 \<or> k = 7 \<or> k = 8 \<or> k = 9"
  using assms by arith

lemma digit_value_digit_char: "k < 10 \<Longrightarrow> digit_value (digit_char k) = k"
  using digit_cases [of k] by (auto simp: digit_value_def digit_char_def)

lemma digit_char_zero: "k < 10 \<Longrightarrow> digit_char k = CHR ''0'' \<longleftrightarrow> k = 0"
  using digit_cases [of k] by (auto simp: digit_char_def)

lemma digit_char_digit: "digit_char k \<in> set ''0123456789''"
  unfolding digit_char_def by (rule nth_mem) simp

lemma decimal_value_snoc: "decimal_value (s @ [c]) = 10 * decimal_value s + digit_value c"
  by (simp add: decimal_value_def)

lemma decimal_value_single: "decimal_value [c] = digit_value c"
  by (simp add: decimal_value_def)

lemma decimal_value_str_nat: "decimal_value (str_nat n) = n"
proof (induction n rule: str_nat.induct)
  case (1 n)
  show ?case
  proof (cases "n < 10")
    case True
    then show ?thesis
      by (subst str_nat.simps) (simp add: decimal_value_single digit_value_digit_char)
  next
    case False
    with 1 have "decimal_value (str_nat (n div 10)) = n div 10" by simp
    with False show ?thesis
      by (subst str_nat.simps) (simp add: decimal_value_snoc digit_value_digit_char)
  qed
qed

lemma str_nat_digits: "set (str_nat n) \<subseteq> set ''0123456789''"
proof (induction n rule: str_nat.induct)
  case (1 n)
  show ?case
  proof (cases "n < 10")
    case True
    then show ?thesis
      using digit_char_digit [of n] by (subst str_nat.simps) simp
  next
    case False
    with 1 have "set (str_nat (n div 10)) \<subseteq> set ''0123456789''" by simp
    with False show ?thesis
      using digit_char_digit [of "n mod 10"] by (subst str_nat.simps) simp
  qed
qed

lemma str_nat_nonempty: "str_nat n \<noteq> []"
  by (subst str_nat.simps) simp

lemma str_nat_leading:
  "str_nat n = ''0'' \<or> hd (str_nat n) \<noteq> CHR ''0''"
proof (induction n rule: str_nat.induct)
  case (1 n)
  show ?case
  proof (cases "n < 10")
    case True
    then have s: "str_nat n = [digit_char n]" by (subst str_nat.simps) simp
    show ?thesis
    proof (cases "n = 0")
      case True
      with s show ?thesis by (simp add: digit_char_def)
    next
      case False
      with \<open>n < 10\<close> show ?thesis by (simp add: s digit_char_zero)
    qed
  next
    case False
    then have s: "str_nat n = str_nat (n div 10) @ [digit_char (n mod 10)]"
      by (subst str_nat.simps) simp
    from False 1 have ih: "str_nat (n div 10) = ''0'' \<or> hd (str_nat (n div 10)) \<noteq> CHR ''0''"
      by simp
    have "str_nat (n div 10) \<noteq> ''0''"
    proof
      assume "str_nat (n div 10) = ''0''"
      then have "decimal_value (str_nat (n div 10)) = decimal_value ''0''" by (rule arg_cong)
      moreover have "decimal_value ''0'' = 0"
        by (simp add: decimal_value_single digit_value_def)
      ultimately have "n div 10 = 0" by (simp only: decimal_value_str_nat)
      with False show False by simp
    qed
    with ih have "hd (str_nat (n div 10)) \<noteq> CHR ''0''" by simp
    then show ?thesis
      unfolding s using str_nat_nonempty [of "n div 10"] by simp
  qed
qed

lemma round_half_even_near: "\<bar>y - of_int (round_half_even y)\<bar> \<le> 1 / 2"
proof -
  have "of_int \<lfloor>y\<rfloor> \<le> y" "y < of_int \<lfloor>y\<rfloor> + 1" by linarith+
  then show ?thesis
    by (auto simp: round_half_even_def Let_def)
qed

lemma round_half_even_tie:
  assumes "\<bar>y - of_int (round_half_even y)\<bar> = 1 / 2"
  shows "even (round_half_even y)"
proof -
  have f: "of_int \<lfloor>y\<rfloor> \<le> y" "y < of_int \<lfloor>y\<rfloor> + 1" by linarith+
  show ?thesis
  proof (cases "y - of_int \<lfloor>y\<rfloor> < 1 / 2")
    case True
    then have "round_half_even y = \<lfloor>y\<rfloor>" by (simp add: round_half_even_def Let_def)
    with assms True f show ?thesis by simp
  next
    case False
    show ?thesis
    proof (cases "1 / 2 < y - of_int \<lfloor>y\<rfloor>")
      case True
      then have "round_half_even y = \<lfloor>y\<rfloor> + 1" by (simp add: round_half_even_def Let_def)
      with assms True f show ?thesis by simp
    next
      case False
      with \<open>\<not> y - of_int \<lfloor>y\<rfloor> < 1 / 2\<close> show ?thesis
        by (simp add: round_half_even_def Let_def)
    qed
  qed
qed

lemma round_half_even_nonneg: "0 \<le> y \<Longrightarrow> 0 \<le> round_half_even y"
  by (auto simp: round_half_even_def Let_def)

lemma format_1f_value:
  "\<exists>ip d. format_1f x = (if x < 0 then ''-'' else []) @ ip @ [CHR ''.'', d] \<and>
     set (ip @ [d]) \<subseteq> set ''0123456789'' \<and> (ip = ''0'' \<or> hd ip \<noteq> CHR ''0'') \<and> ip \<noteq> [] \<and>
     \<bar>\<bar>x\<bar> * 10 - real (decimal_value (ip @ [d]))\<bar> \<le> 1 / 2 \<and>
     (\<bar>\<bar>x\<bar> * 10 - real (decimal_value (ip @ [d]))\<bar> = 1 / 2 \<longrightarrow> even (decimal_value (ip @ [d])))"
proof -
  define z where "z = round_half_even (\<bar>x\<bar> * 10)"
  define n where "n = nat z"
  have z: "0 \<le> z" unfolding z_def by (rule round_half_even_nonneg) simp
  then have rn: "real n = of_int z" by (simp add: n_def)
  let ?ip = "str_nat (n div 10)" and ?d = "digit_char (n mod 10)"
  have v: "decimal_value (?ip @ [?d]) = n"
    by (simp add: decimal_value_snoc decimal_value_str_nat digit_value_digit_char)
  have 1: "format_1f x = (if x < 0 then ''-'' else []) @ ?ip @ [CHR ''.'', ?d]"
    by (simp add: format_1f_def n_def z_def Let_def)
  have 2: "set (?ip @ [?d]) \<subseteq> set ''0123456789''"
    using str_nat_digits [of "n div 10"] digit_char_digit [of "n mod 10"] by simp
  have 3: "?ip = ''0'' \<or> hd ?ip \<noteq> CHR ''0''" by (rule str_nat_leading)
  have 4: "?ip \<noteq> []" by (rule str_nat_nonempty)
  have 5: "\<bar>\<bar>x\<bar> * 10 - real (decimal_value (?ip @ [?d]))\<bar> \<le> 1 / 2"
    unfolding v rn z_def by (rule round_half_even_near)
  have 6: "even (decimal_value (?ip @ [?d]))"
    if "\<bar>\<bar>x\<bar> * 10 - real (decimal_value (?ip @ [?d]))\<bar> = 1 / 2"
  proof -
    from that have "even z" unfolding v rn z_def by (rule round_half_even_tie)
    with z have "even n" by (simp add: n_def even_nat_iff)
    then show ?thesis by (simp only: v)
  qed
  show ?thesis
    by (intro exI conjI impI) (rule 1 2 3 4 5 6 | assumption)+
qed

section \<open>Properties of the estimates\<close>

lemma label_1: "label 1 = ''Factor_1.0''"
  by (simp add: label_def format_1f_def round_half_even_def digit_char_def str_nat.simps)

lemma label_2: "label 2 = ''Factor_2.0''"
  by (simp add: label_def format_1f_def round_half_even_def digit_char_def str_nat.simps)

lemma label_3: "label 3 = ''Factor_3.0''"
  by (simp add: label_def format_1f_def round_half_even_def digit_char_def str_nat.simps)

lemma label_4: "label 4 = ''Factor_4.0''"
  by (simp add: label_def format_1f_def round_half_even_def digit_char_def str_nat.simps)

lemma estimated_results_eq:
  "estimated_results =
     [(''Native'', [(''ATP_production'', 8.39), (''O2_consumption'', 5),
                    (''NADH_turnover'', 10), (''growth_rate'', 1.00083)]),
      (''Factor_1.0'', [(''ATP_production'', 8.39 * 1), (''O2_consumption'', 5 * 1),
                    (''NADH_turnover'', 10 * 1), (''growth_rate'', 1.00083 * 1)]),
      (''Factor_2.0'', [(''ATP_production'', 8.39 * 2), (''O2_consumption'', 5 * 2),
                    (''NADH_turnover'', 10 * 2), (''growth_rate'', 1.00083 * 2)]),
      (''Factor_3.0'', [(''ATP_production'', 8.39 * 3), (''O2_consumption'', 5 * 3),
                    (''NADH_turnover'', 10 * 3), (''growth_rate'', 1.00083 * 3)]),
      (''Factor_4.0'', [(''ATP_production'', 8.39 * 4), (''O2_consumption'', 5 * 4),
                    (''NADH_turnover'', 10 * 4), (''growth_rate'', 1.00083 * 4)])]"
  by (simp add: estimated_results_def factor_range_def dict_of_def label_1 label_2 label_3 label_4)

lemma estimate_fields: "map_of estimated_results key = Some e \<Longrightarrow> map fst e = field_names"
  unfolding estimated_results_eq field_names_def
  by (auto split: if_splits)

lemma four_fields:
  assumes "map fst r = field_names"
  obtains a b c d where
    "r = [(''ATP_production'', a), (''O2_consumption'', b), (''NADH_turnover'', c), (''growth_rate'', d)]"
proof -
  from assms obtain p1 p2 p3 p4 where r: "r = [p1, p2, p3, p4]"
    and f: "fst p1 = ''ATP_production''" "fst p2 = ''O2_consumption''"
           "fst p3 = ''NADH_turnover''" "fst p4 = ''growth_rate''"
    unfolding field_names_def by (auto simp: map_eq_Cons_conv)
  have "r = [(''ATP_production'', snd p1), (''O2_consumption'', snd p2),
             (''NADH_turnover'', snd p3), (''growth_rate'', snd p4)]"
    unfolding r using f by (simp add: prod_eq_iff)
  then show ?thesis by (rule that)
qed

lemma update_fields:
  assumes "map fst r = field_names" and "map fst e = field_names"
  shows "dict_update r (dict_of (filter (\<lambda>(k, v). k \<in> set (map fst r)) e)) = e"
proof -
  from assms(1) obtain a b c d where
    r: "r = [(''ATP_production'', a), (''O2_consumption'', b), (''NADH_turnover'', c), (''growth_rate'', d)]"
    by (rule four_fields)
  from assms(2) obtain a' b' c' d' where
    e: "e = [(''ATP_production'', a'), (''O2_consumption'', b'), (''NADH_turnover'', c'), (''growth_rate'', d')]"
    by (rule four_fields)
  show ?thesis
    unfolding r e by (simp add: dict_update_def dict_of_def)
qed

lemma subscript_Some: "map_of d k = Some v \<Longrightarrow> subscript d k = Inr v"
  by (simp add: subscript_def)

lemma overwrite_eq:
  assumes "map_of actual key = Some r" and "map fst r = field_names"
    and "map_of estimated_results key = Some e"
  shows "overwrite actual key = Inr (AList.update key e actual)"
  using update_fields [OF assms(2) estimate_fields [OF assms(3)]]
  by (simp add: overwrite_def bind_err_def subscript_Some [OF assms(1)] subscript_Some [OF assms(3)])

lemma overwrite_Inr:
  assumes "overwrite actual key = Inr a"
  shows "\<exists>v. a = AList.update key v actual"
  using assms by (auto simp: overwrite_def bind_err_def split: sum.splits)

lemma overwrite_estimate_present:
  assumes "overwrite actual key = Inr a"
  shows "\<exists>e. map_of estimated_results key = Some e"
  using assms by (auto simp: overwrite_def bind_err_def subscript_def split: sum.splits option.splits)

lemma fill_key_Inr:
  assumes "fill_key actual key = Inr a"
  shows "a = actual \<or> (\<exists>v. a = AList.update key v actual)"
  using assms overwrite_Inr [of actual key a]
  by (auto simp: fill_key_def bind_err_def split: sum.splits if_splits)

lemma fill_key_other:
  assumes "fill_key actual key = Inr a" and "k \<noteq> key"
  shows "map_of a k = map_of actual k"
  using fill_key_Inr [OF assms(1)] assms(2) by (auto simp: AList.update_conv')

lemma fill_key_keys:
  assumes "fill_key actual key = Inr a" and "key \<in> fst ` set actual"
  shows "map fst a = map fst actual"
proof -
  from assms(2) have "key \<in> set (map fst actual)" by simp
  with fill_key_Inr [OF assms(1)] show ?thesis
    by (auto simp only: AList.update_keys if_True)
qed

lemma fill_key_zero:
  assumes "fill_key actual key = Inr a" and "map_of actual key = Some r"
    and "map fst r = field_names"
    and "map_of r ''ATP_production'' = Some 0 \<or> map_of r ''growth_rate'' = Some 0"
  shows "\<exists>e. map_of estimated_results key = Some e \<and> a = AList.update key e actual"
proof -
  from assms(3) obtain x b c d where
    r: "r = [(''ATP_production'', x), (''O2_consumption'', b), (''NADH_turnover'', c), (''growth_rate'', d)]"
    by (rule four_fields)
  from assms(4) have z: "x = 0 \<or> d = 0" unfolding r by simp
  have "fill_key actual key = overwrite actual key"
    using z by (auto simp: fill_key_def bind_err_def subscript_def assms(2) r)
  with assms(1) have o: "overwrite actual key = Inr a" by simp
  from overwrite_estimate_present [OF o] obtain e where e: "map_of estimated_results key = Some e" ..
  from overwrite_eq [OF assms(2,3) e] o have "a = AList.update key e actual" by simp
  with e show ?thesis by blast
qed

lemma fill_loop_other:
  assumes "fill_loop actual keys = Inr out" and "k \<notin> set keys"
  shows "map_of out k = map_of actual k"
  using assms
proof (induction keys arbitrary: actual)
  case Nil
  then show ?case by simp
next
  case (Cons key keys)
  from Cons.prems(1) obtain a where a: "fill_key actual key = Inr a" and l: "fill_loop a keys = Inr out"
    by (auto simp: bind_err_def split: sum.splits)
  from Cons.prems(2) have "k \<noteq> key" "k \<notin> set keys" by auto
  with Cons.IH [OF l] fill_key_other [OF a] show ?case by simp
qed

lemma fill_loop_keys:
  assumes "fill_loop actual keys = Inr out" and "set keys \<subseteq> fst ` set actual"
  shows "map fst out = map fst actual"
  using assms
proof (induction keys arbitrary: actual)
  case Nil
  then show ?case by simp
next
  case (Cons key keys)
  from Cons.prems(1) obtain a where a: "fill_key actual key = Inr a" and l: "fill_loop a keys = Inr out"
    by (auto simp: bind_err_def split: sum.splits)
  have k: "map fst a = map fst actual" using fill_key_keys [OF a] Cons.prems(2) by simp
  then have "fst ` set a = fst ` set actual" by (metis list.set_map)
  with Cons.prems(2) have "set keys \<subseteq> fst ` set a" by simp
  from Cons.IH [OF l this] k show ?case by simp
qed

lemma fill_loop_zero:
  assumes "fill_loop actual keys = Inr out" and "distinct keys" and "key \<in> set keys"
    and "map_of actual key = Some r" and "map fst r = field_names"
    and "map_of r ''ATP_production'' = Some 0 \<or> map_of r ''growth_rate'' = Some 0"
  shows "\<exists>e. map_of estimated_results key = Some e \<and> map_of out key = Some e"
  using assms(1,2,3,4)
proof (induction keys arbitrary: actual)
  case Nil
  then show ?case by simp
next
  case (Cons k keys)
  from Cons.prems(1) obtain a where a: "fill_key actual k = Inr a" and l: "fill_loop a keys = Inr out"
    by (auto simp: bind_err_def split: sum.splits)
  show ?case
  proof (cases "k = key")
    case True
    from fill_key_zero [OF a [unfolded True] Cons.prems(4) assms(5,6)]
    obtain e where e: "map_of estimated_results key = Some e" and u: "a = AList.update key e actual"
      by blast
    from Cons.prems(2) True have "key \<notin> set keys" by simp
    from fill_loop_other [OF l this] have "map_of out key = Some e"
      by (simp add: u AList.update_conv')
    with e show ?thesis by blast
  next
    case False
    with Cons.prems(3) have in_keys: "key \<in> set keys" by simp
    from fill_key_other [OF a, of key] False Cons.prems(4) have "map_of a key = Some r" by simp
    from Cons.IH [OF l _ in_keys this] Cons.prems(2) show ?thesis by simp
  qed
qed

lemma fill_key_result:
  assumes "map_of actual key = Some r" and "map fst r = field_names"
    and "map_of estimated_results key = Some e"
  shows "fill_key actual key = Inr actual \<or> fill_key actual key = Inr (AList.update key e actual)"
proof -
  from assms(2) obtain x b c d where
    r: "r = [(''ATP_production'', x), (''O2_consumption'', b), (''NADH_turnover'', c), (''growth_rate'', d)]"
    by (rule four_fields)
  have "fill_key actual key = (if x = 0 \<or> d = 0 then overwrite actual key else Inr actual)"
    by (simp add: fill_key_def bind_err_def subscript_def assms(1) r)
  then show ?thesis
    using overwrite_eq [OF assms] by (simp split: if_splits)
qed

lemma fill_loop_total:
  assumes "\<forall>k\<in>set keys. \<exists>r e. map_of actual k = Some r \<and> map fst r = field_names \<and>
             map_of estimated_results k = Some e"
  shows "\<exists>filled. fill_loop actual keys = Inr filled"
  using assms
proof (induction keys arbitrary: actual)
  case Nil
  then show ?case by simp
next
  case (Cons k keys)
  from Cons.prems obtain r e where r: "map_of actual k = Some r" "map fst r = field_names"
    and e: "map_of estimated_results k = Some e" by auto
  from fill_key_result [OF r e] obtain a where a: "fill_key actual k = Inr a"
    and c: "a = actual \<or> a = AList.update k e actual" by blast
  have "\<forall>k'\<in>set keys. \<exists>r e. map_of a k' = Some r \<and> map fst r = field_names \<and>
             map_of estimated_results k' = Some e"
  proof
    fix k' assume k': "k' \<in> set keys"
    with Cons.prems obtain r' e' where o: "map_of actual k' = Some r'" "map fst r' = field_names"
      "map_of estimated_results k' = Some e'" by auto
    show "\<exists>r e. map_of a k' = Some r \<and> map fst r = field_names \<and> map_of estimated_results k' = Some e"
    proof (cases "a = AList.update k e actual \<and> k' = k")
      case True
      then have "map_of a k' = Some e" by (simp add: AList.update_conv')
      with estimate_fields [OF e] o(3) show ?thesis by blast
    next
      case False
      with c have "map_of a k' = map_of actual k'" by (auto simp: AList.update_conv')
      with o show ?thesis by simp
    qed
  qed
  from Cons.IH [OF this] a show ?case by (simp add: bind_err_def)
qed

lemma estimated_keys: "fst ` set estimated_results = insert ''Native'' (label ` set factor_range)"
  unfolding estimated_results_eq
  by (simp add: factor_range_def label_1 label_2 label_3 label_4 insert_commute)

text \<open>
  The table that the script hands to the loop of lines 79 to 81 has distinct keys, each
  with an estimate, and records of the four fields.
\<close>

lemma script_table_wellformed:
  assumes "run_fba_with_enhancement optimize m factor_range = Inr (m1, res, out1)"
    and "run_fba_with_enhancement optimize m1 [1] = Inr (m2, native_run, out2)"
    and "subscript native_run ''Factor_1.0'' = Inr native_solution"
  shows "distinct (map fst (dict_of ((''Native'', native_solution) # res))) \<and>
         (\<forall>k\<in>fst ` set (dict_of ((''Native'', native_solution) # res)).
             k \<in> fst ` set estimated_results) \<and>
         (\<forall>r\<in>snd ` set (dict_of ((''Native'', native_solution) # res)).
             map fst r = field_names)"
proof -
  let ?t = "dict_of ((''Native'', native_solution) # res)"
  from assms(1) have s1: "sweep optimize m [] [] factor_range = Inr (m1, res, out1)"
    by (simp add: run_fba_with_enhancement_def)
  from assms(2) have s2: "sweep optimize m1 [] [] [1] = Inr (m2, native_run, out2)"
    by (simp add: run_fba_with_enhancement_def)
  have sub: "set ?t \<subseteq> insert (''Native'', native_solution) (set res)"
    using set_dict_of [of "(''Native'', native_solution) # res"] by simp
  have f1: "\<forall>r\<in>snd ` set res. map fst r = field_names"
    unfolding sweep_results [OF s1] by (rule store_records) simp
  have f2: "\<forall>r\<in>snd ` set native_run. map fst r = field_names"
    unfolding sweep_results [OF s2] by (rule store_records) simp
  from assms(3) have "(''Factor_1.0'', native_solution) \<in> set native_run"
    by (auto simp: subscript_def split: option.splits dest: map_of_SomeD)
  then have "native_solution \<in> snd ` set native_run" by force
  with f2 have fn: "map fst native_solution = field_names" by blast
  have k: "fst ` set res \<subseteq> label ` set factor_range" by (rule sweep_keys_subset [OF s1])
  have 2: "\<forall>k\<in>fst ` set ?t. k \<in> fst ` set estimated_results"
  proof
    fix k' assume "k' \<in> fst ` set ?t"
    with sub have "k' = ''Native'' \<or> k' \<in> fst ` set res" by force
    with k show "k' \<in> fst ` set estimated_results" unfolding estimated_keys by blast
  qed
  have 3: "\<forall>r\<in>snd ` set ?t. map fst r = field_names"
  proof
    fix r assume "r \<in> snd ` set ?t"
    with sub have "r = native_solution \<or> r \<in> snd ` set res" by force
    with fn f1 show "map fst r = field_names" by blast
  qed
  from distinct_dict_of 2 3 show ?thesis by blast
qed

section \<open>The examples, evaluated\<close>

lemmas eval_simps = run_fba_with_enhancement_def prepare_def apply_constraint_def
  reset_bounds_def reset_reaction_def set_upper_bound_def constraints_eq base_constraints_def
  set_objective_def dict_of_def flux_record_def get_default_def example_model_def
  always_optimal_def example_fluxes_def capacity_solver_def echo_solver_def partial_solver_def
  result_keys_def all_optimal_def label_def format_1f_def round_half_even_def digit_char_def
  str_nat.simps Let_def

lemma has_id_example:
  "has_id (reactions example_model) ''BIOMASS_Ecoli_core_w_GAM''" "has_id (reactions example_model) ''ATPM''"
  by (simp_all add: has_id_def example_model_def)

lemma no_markers_example: "no_markers example_model"
  by (simp add: no_markers_def example_model_def)

lemma fill_example:
  "fill_estimates example_actual =
     Inr [(''Native'', native_estimate),
          (''Factor_1.0'', [(''ATP_production'', 8.39), (''O2_consumption'', 5), (''NADH_turnover'', 0), (''growth_rate'', 1)])]"
  by (simp add: fill_estimates_def example_actual_def fill_key_def overwrite_def bind_err_def
      subscript_def estimated_results_eq dict_update_def dict_of_def native_estimate_def)

lemma safe_example: "safe_model example_model"
  by (simp add: safe_model_def safe_reaction_def has_id_def example_model_def base_constraints_def)

text \<open>
  A negative factor after the factor 2 turns the upper bound of CS to -2000, below its
  lower bound 0: the assignment of line 39 is refused and the run ends there.
\<close>

lemma negative_factor_refused:
  "run_fba_with_enhancement capacity_solver example_model [2, - 1] = Inl (ValueError 0 (- 2000))"
  by (simp add: eval_simps)

section \<open>The claims\<close>

text \<open>
  Claim C1. In \<open>run_fba_with_enhancement\<close>, when no reaction has the original-value
  marker, the reset step changes nothing: it assigns to each reaction the bound it has,
  which the setter accepts on a model with ordered bounds and in every run that gets
  past its first iteration, and what it returns is the model it was given. No iteration
  adds a marker, so this holds in every later iteration too, and each override
  multiplies the upper bound the previous iteration left: after the factors
  \<open>f1 .. fn\<close> the upper bound of an override reaction of the model is its initial
  value multiplied in turn by \<open>min 4 (fi * base)\<close>, which over the reals is the
  initial value times the product. The transformation accumulates: the same factor
  twice multiplies twice.
\<close>

theorem run_fba_bounds_accumulate:
  assumes "no_markers m"
    and "run_fba_with_enhancement optimize m fs = Inr (m', res', out')"
    and "get_by_id (reactions m) r = Some x"
    and "map_of base_constraints r = Some b"
  shows "(fs \<noteq> [] \<or> bounds_ordered m \<longrightarrow> reset_bounds m = Inr m) \<and>
         (\<forall>m0. reset_bounds m = Inr m0 \<longrightarrow> m0 = m) \<and> no_markers m' \<and>
         get_by_id (reactions m') r =
           Some (x\<lparr>upper_bound := foldl (*) (upper_bound x) (map (\<lambda>f. min 4 (f * b)) fs)\<rparr>) \<and>
         foldl (*) (upper_bound x) (map (\<lambda>f. min 4 (f * b)) fs) =
           upper_bound x * prod_list (map (\<lambda>f. min 4 (f * b)) fs)"
proof -
  from assms(2) have s: "sweep optimize m [] [] fs = Inr (m', res', out')"
    by (simp add: run_fba_with_enhancement_def)
  have 0: "reset_bounds m = Inr m" if "fs \<noteq> [] \<or> bounds_ordered m"
  proof (cases "bounds_ordered m")
    case True
    then show ?thesis by (rule reset_bounds_ordered [OF assms(1)])
  next
    case False
    with that obtain f rest where fs: "fs = f # rest" by (cases fs) auto
    from s obtain m2 out1 where "prepare m [] f = Inr (m2, out1)"
      unfolding fs by (rule sweep_Inr_prepare)
    then obtain m0 where r: "reset_bounds m = Inr m0" by (rule prepare_Inr)
    with reset_bounds_no_markers [OF assms(1) r] show ?thesis by simp
  qed
  have 1: "\<forall>m0. reset_bounds m = Inr m0 \<longrightarrow> m0 = m"
    using reset_bounds_no_markers [OF assms(1)] by blast
  from 0 1 show ?thesis
    using sweep_no_markers [OF s assms(1)]
      sweep_upper_bound [OF s assms(1,3,4)] foldl_mult_prod_list by blast
qed

text \<open>
  At the example model and the factors 2, 2 the bound of CS goes from 1000 to 4000.
\<close>

theorem run_fba_bounds_accumulate_witness:
  "no_markers example_model \<and>
   get_by_id (reactions example_model) ''CS'' =
     Some \<lparr>rid = ''CS'', lower_bound = 0, upper_bound = 1000, original_upper_bound = None\<rparr> \<and>
   map_of base_constraints ''CS'' = Some 1 \<and>
   (\<exists>m' res' out'.
      run_fba_with_enhancement always_optimal example_model [2, 2] = Inr (m', res', out') \<and>
      get_by_id (reactions m') ''CS'' =
        Some \<lparr>rid = ''CS'', lower_bound = 0, upper_bound = 4000, original_upper_bound = None\<rparr>)"
proof -
  have g: "get_by_id (reactions example_model) ''CS'' =
     Some \<lparr>rid = ''CS'', lower_bound = 0, upper_bound = 1000, original_upper_bound = None\<rparr>"
    by (simp add: example_model_def)
  have b: "map_of base_constraints ''CS'' = Some 1"
    by (simp add: base_constraints_def)
  have nn1: "list_all (\<lambda>f. 0 \<le> f) ([2, 2] :: real list)" by simp
  obtain m' res' out' where
    r: "run_fba_with_enhancement always_optimal example_model [2, 2] = Inr (m', res', out')"
    by (rule run_returns [OF safe_example nn1])
  from run_fba_bounds_accumulate [OF no_markers_example r g b]
  have "get_by_id (reactions m') ''CS'' =
        Some \<lparr>rid = ''CS'', lower_bound = 0, upper_bound = 4000, original_upper_bound = None\<rparr>"
    by simp
  with no_markers_example g b r show ?thesis by blast
qed

text \<open>
  Claim C2. On a results table as the script builds it (distinct keys, each with an
  estimate, records of the four fields), the loop of lines 79 to 81 returns, and a
  record whose \<open>ATP_production\<close> or whose \<open>growth_rate\<close> is exactly zero is replaced
  by the estimate of its key, the table keeping its keys and their order; for the key
  \<open>Native\<close> the record becomes 8.39, 5, 10, 1.00083.
\<close>

theorem zero_record_replaced_by_estimate:
  assumes "distinct (map fst actual)"
    and "\<forall>k\<in>fst ` set actual. k \<in> fst ` set estimated_results"
    and "\<forall>r\<in>snd ` set actual. map fst r = field_names"
    and "map_of actual key = Some r"
    and "map_of r ''ATP_production'' = Some 0 \<or> map_of r ''growth_rate'' = Some 0"
  shows "\<exists>filled e. fill_estimates actual = Inr filled \<and>
           map_of estimated_results key = Some e \<and> map_of filled key = Some e \<and>
           map fst filled = map fst actual \<and>
           (key = ''Native'' \<longrightarrow>
              e = [(''ATP_production'', 8.39), (''O2_consumption'', 5),
                   (''NADH_turnover'', 10), (''growth_rate'', 1.00083)])"
proof -
  have inv: "\<forall>k\<in>set (map fst actual). \<exists>r e. map_of actual k = Some r \<and> map fst r = field_names \<and>
             map_of estimated_results k = Some e"
  proof
    fix k assume k: "k \<in> set (map fst actual)"
    then obtain r' where m: "map_of actual k = Some r'"
      by (metis map_of_eq_None_iff not_Some_eq list.set_map)
    then have "(k, r') \<in> set actual" by (rule map_of_SomeD)
    then have "r' \<in> snd ` set actual" by force
    with assms(3) have f: "map fst r' = field_names" by blast
    from k have "k \<in> fst ` set actual" by simp
    with assms(2) have "k \<in> fst ` set estimated_results" by blast
    then obtain e' where "map_of estimated_results k = Some e'"
      by (metis map_of_eq_None_iff not_Some_eq)
    with m f show "\<exists>r e. map_of actual k = Some r \<and> map fst r = field_names \<and>
             map_of estimated_results k = Some e" by blast
  qed
  from fill_loop_total [OF inv] obtain filled where
    l: "fill_loop actual (map fst actual) = Inr filled" by blast
  then have f: "fill_estimates actual = Inr filled" by (simp add: fill_estimates_def)
  from assms(4) have k: "key \<in> set (map fst actual)"
    by (metis map_of_eq_None_iff option.distinct(1) list.set_map)
  from assms(4) have "(key, r) \<in> set actual" by (rule map_of_SomeD)
  then have "r \<in> snd ` set actual" by force
  with assms(3) have rf: "map fst r = field_names" by blast
  from fill_loop_zero [OF l assms(1) k assms(4) rf assms(5)] obtain e where
    e: "map_of estimated_results key = Some e" "map_of filled key = Some e" by blast
  have 2: "map fst filled = map fst actual"
    using fill_loop_keys [OF l] by simp
  have 3: "e = [(''ATP_production'', 8.39), (''O2_consumption'', 5),
            (''NADH_turnover'', 10), (''growth_rate'', 1.00083)]" if "key = ''Native''"
    using e(1) that unfolding estimated_results_eq by simp
  from f e 2 3 show ?thesis by blast
qed

theorem zero_record_replaced_by_estimate_witness:
  "distinct (map fst example_actual) \<and>
   fst ` set example_actual \<subseteq> fst ` set estimated_results \<and>
   map (map fst \<circ> snd) example_actual = [field_names, field_names] \<and>
   map_of example_actual ''Native'' =
     Some [(''ATP_production'', 0), (''O2_consumption'', 5), (''NADH_turnover'', 0), (''growth_rate'', 0)] \<and>
   (\<exists>filled. fill_estimates example_actual = Inr filled \<and>
      map_of filled ''Native'' = Some native_estimate)"
proof -
  let ?r = "[(''ATP_production'', 0), (''O2_consumption'', 5), (''NADH_turnover'', 0), (''growth_rate'', 0::real)]"
  have d: "distinct (map fst example_actual)" by (simp add: example_actual_def)
  have ks: "\<forall>k\<in>fst ` set example_actual. k \<in> fst ` set estimated_results"
    by (simp add: example_actual_def estimated_results_eq)
  have fs: "\<forall>r\<in>snd ` set example_actual. map fst r = field_names"
    by (simp add: example_actual_def field_names_def)
  have ks': "fst ` set example_actual \<subseteq> fst ` set estimated_results"
    using ks by blast
  have fs': "map (map fst \<circ> snd) example_actual = [field_names, field_names]"
    by (simp add: example_actual_def field_names_def)
  have n: "map_of example_actual ''Native'' = Some ?r" by (simp add: example_actual_def)
  have z: "map_of ?r ''ATP_production'' = Some 0 \<or> map_of ?r ''growth_rate'' = Some 0" by simp
  from zero_record_replaced_by_estimate [OF d ks fs n z]
  obtain filled e where f: "fill_estimates example_actual = Inr filled"
    and e: "map_of filled ''Native'' = Some e"
    and i: "''Native'' = ''Native'' \<longrightarrow>
              e = [(''ATP_production'', 8.39), (''O2_consumption'', 5),
                   (''NADH_turnover'', 10), (''growth_rate'', 1.00083)]"
    by (elim exE conjE) (rule that)
  from e i have k: "map_of filled ''Native'' = Some native_estimate"
    by (simp add: native_estimate_def)
  show ?thesis by (intro exI conjI) (rule d ks' fs' n f k)+
qed

text \<open>
  Claim C3. The flux-change summary of lines 102 to 104 looks the identifiers of the
  model's reactions up in the two records, whose keys are the four field names. Here
  the two records differ by 3 in \<open>growth_rate\<close>, more than 0.1, and the summary is
  empty: the field is not reported.
\<close>

theorem top_fluxes_misses_fields:
  "0.1 < \<bar>get_default example_high ''growth_rate'' 0 - get_default example_native ''growth_rate'' 0\<bar> \<and>
   top_fluxes (flux_changes (reactions example_model) example_high example_native) = []"
  by (simp add: get_default_def example_high_def example_native_def example_model_def
      flux_changes_def top_fluxes_def dict_of_def)

text \<open>
  In general the summary is empty whenever no reaction identifier is a field of the
  records.
\<close>

lemma flux_changes_no_field:
  assumes "\<forall>rxn\<in>set rs. rid rxn \<notin> fst ` set hi \<and> rid rxn \<notin> fst ` set native"
  shows "flux_changes rs hi native = []"
proof -
  have "get_default hi (rid rxn) 0 - get_default native (rid rxn) 0 = 0" if "rxn \<in> set rs" for rxn
    using assms that by (simp add: get_default_def map_of_eq_None_iff [THEN iffD2])
  then have "filter (\<lambda>rxn. 0.1 < \<bar>get_default hi (rid rxn) 0 - get_default native (rid rxn) 0\<bar>) rs = []"
    by (simp add: filter_empty_conv)
  then show ?thesis by (simp add: flux_changes_def dict_of_def)
qed

text \<open>
  Claim C4. When the solve of a factor returns a status other than \<open>optimal\<close>, the
  iteration leaves the result mapping as it was, logs the warning and goes on with the
  remaining factors: the outcome of the run is the outcome of the remaining factors
  from the prepared model, and the iteration taken alone returns. Whenever the run
  returns, its mapping holds what the optimal solves of the remaining factors add to
  the one before; and it does return on a safe model when no factor is negative. (A
  later iteration can still end the run: the setter refuses a bound below the lower
  bound, as in \<open>negative_factor_refused\<close>.)
\<close>

theorem non_optimal_factor_skipped:
  assumes "prepare m out f = Inr (m2, out1)" and "status (optimize m2) \<noteq> ''optimal''"
  shows "sweep optimize m res out (f # rest) =
           sweep optimize m2 res (out1 @ [SkipWarning (status (optimize m2)) f]) rest \<and>
         sweep optimize m res out [f] =
           Inr (m2, res, out1 @ [SkipWarning (status (optimize m2)) f]) \<and>
         (\<forall>m' res' out'. sweep optimize m res out (f # rest) = Inr (m', res', out') \<longrightarrow>
            res' = store res (optimal_solves optimize m2 rest)) \<and>
         (safe_model m \<and> list_all (\<lambda>g. 0 \<le> g) (f # rest) \<longrightarrow>
            (\<exists>m' res' out'. sweep optimize m res out (f # rest) = Inr (m', res', out')))"
proof -
  have 1: "sweep optimize m res out (f # rest) =
           sweep optimize m2 res (out1 @ [SkipWarning (status (optimize m2)) f]) rest"
    unfolding sweep_step [OF assms(1)] using assms(2) by simp
  have 2: "sweep optimize m res out [f] =
           Inr (m2, res, out1 @ [SkipWarning (status (optimize m2)) f])"
    unfolding sweep_single [OF assms(1)] using assms(2) by simp
  have 3: "res' = store res (optimal_solves optimize m2 rest)"
    if "sweep optimize m res out (f # rest) = Inr (m', res', out')" for m' res' out'
    by (rule sweep_results [OF that [unfolded 1]])
  have 4: "\<exists>m' res' out'. sweep optimize m res out (f # rest) = Inr (m', res', out')"
    if "safe_model m \<and> list_all (\<lambda>g. 0 \<le> g) (f # rest)"
    using sweep_safe [of m "f # rest" optimize res out] that by blast
  from 1 2 3 4 show ?thesis by blast
qed

text \<open>
  With the solver that fails above a bound of 1000, the factor 2 is skipped and the
  factor 0.5 after it is stored.
\<close>

theorem non_optimal_factor_skipped_witness:
  "\<exists>m2 out1. prepare example_model [] 2 = Inr (m2, out1) \<and>
     status (capacity_solver m2) \<noteq> ''optimal'' \<and>
     sweep capacity_solver example_model [] [] [2, 0.5] =
       sweep capacity_solver m2 [] (out1 @ [SkipWarning (status (capacity_solver m2)) 2]) [0.5] \<and>
     sweep capacity_solver example_model [] [] [2] =
       Inr (m2, [], out1 @ [SkipWarning (status (capacity_solver m2)) 2]) \<and>
     result_keys (sweep capacity_solver example_model [] [] [2, 0.5]) = Some [''Factor_0.5'']"
proof -
  have nn2: "(0::real) \<le> 2" by simp
  obtain m2 out1 where p: "prepare example_model [] 2 = Inr (m2, out1)"
    by (rule prepare_returns [OF safe_example nn2])
  have g: "get_by_id (reactions example_model) ''CS'' =
     Some \<lparr>rid = ''CS'', lower_bound = 0, upper_bound = 1000, original_upper_bound = None\<rparr>"
    by (simp add: example_model_def)
  have b: "map_of base_constraints ''CS'' = Some 1"
    by (simp add: base_constraints_def)
  have s: "status (capacity_solver m2) \<noteq> ''optimal''"
    using prepare_upper_bound [OF p no_markers_example g b] by (simp add: capacity_solver_def)
  have k: "result_keys (sweep capacity_solver example_model [] [] [2, 0.5]) = Some [''Factor_0.5'']"
    by (simp add: eval_simps)
  note t = non_optimal_factor_skipped [where optimize = capacity_solver, OF p s]
  have e: "sweep capacity_solver example_model [] [] [2, 0.5] =
       sweep capacity_solver m2 [] (out1 @ [SkipWarning (status (capacity_solver m2)) 2]) [0.5]"
    using t by (rule conjunct1)
  have e1: "sweep capacity_solver example_model [] [] [2] =
       Inr (m2, [], out1 @ [SkipWarning (status (capacity_solver m2)) 2])"
    using t by (rule conjunct1 [OF conjunct2])
  show ?thesis by (intro exI conjI) (rule p s e e1 k)+
qed

text \<open>
  Claim C5, as stated: when every solve is optimal the mapping has exactly one entry per
  input factor. It fails for two factors of the same label: 1.0 and 1.03125 are both
  \<open>Factor_1.0\<close>, and the mapping has one entry for the two of them.
\<close>

theorem one_entry_per_factor_counterexample:
  "all_optimal always_optimal example_model [1, 1.03125] \<and>
   result_keys (run_fba_with_enhancement always_optimal example_model [1, 1.03125]) =
     Some [''Factor_1.0'']"
  by (simp add: eval_simps)

text \<open>
  Claim C5, amended. When every solve is optimal, the keys of the mapping are exactly
  the labels of the input factors, no key occurs twice, and when the labels of the input
  factors are pairwise distinct the mapping has one entry per input factor, in the order
  of the input. There is one solve per input factor, and looking a label up in the
  mapping gives the record of the last solve of that label: factors of the same label
  share one entry, which holds the record of the last of them.
\<close>

theorem result_keys_are_labels:
  assumes "run_fba_with_enhancement optimize m fs = Inr (m', res', out')"
    and "all_optimal optimize m fs"
  shows "fst ` set res' = label ` set fs \<and> distinct (map fst res') \<and>
         (distinct (map label fs) \<longrightarrow> map fst res' = map label fs) \<and>
         map fst (solves optimize m fs) = fs \<and>
         map_of res' = map_of (rev (entries (solves optimize m fs))) \<and>
         (\<forall>xs f sol ys.
            solves optimize m fs = xs @ (f, sol) # ys \<and> label f \<notin> label ` fst ` set ys \<longrightarrow>
            map_of res' (label f) = Some (flux_record sol))"
proof -
  from assms(1) have s: "sweep optimize m [] [] fs = Inr (m', res', out')"
    by (simp add: run_fba_with_enhancement_def)
  from assms(2) have o: "optimal_solves optimize m fs = solves optimize m fs"
    by (simp add: all_optimal_def optimal_solves_def list_all_iff)
  have r: "res' = store [] (solves optimize m fs)"
    using sweep_results [OF s] o by simp
  have f: "map fst (solves optimize m fs) = fs" by (rule length_solves [OF s])
  have l: "map (\<lambda>(f, sol). label f) (solves optimize m fs) = map label fs"
    unfolding label_fst using f by (metis map_map)
  have 1: "fst ` set res' = label ` set fs"
    unfolding r store_keys using l by (metis image_empty list.set(1) list.set_map sup_bot.left_neutral)
  have 2: "distinct (map fst res')" unfolding r by (rule distinct_store) simp
  have 3: "map fst res' = map label fs" if "distinct (map label fs)"
    unfolding r using store_keys_distinct [of "[]" "solves optimize m fs"] that l by simp
  have 4: "map_of res' = map_of (rev (entries (solves optimize m fs)))"
    unfolding r map_of_store by simp
  have 5: "map_of res' (label f) = Some (flux_record sol)"
    if "solves optimize m fs = xs @ (f, sol) # ys \<and> label f \<notin> label ` fst ` set ys"
    for xs f sol ys
    unfolding r using store_last [of "solves optimize m fs" xs f sol ys "[]"] that by blast
  from 1 2 3 f 4 5 show ?thesis by blast
qed

theorem result_keys_are_labels_witness:
  "all_optimal echo_solver example_model [1, 2] \<and> distinct (map label [1, 2]) \<and>
   (\<exists>m' res' out'. run_fba_with_enhancement echo_solver example_model [1, 2] = Inr (m', res', out') \<and>
      map fst res' = [''Factor_1.0'', ''Factor_2.0'']) \<and>
   all_optimal echo_solver example_model [1, 1.03125] \<and>
   (\<exists>m' res' out'.
      run_fba_with_enhancement echo_solver example_model [1, 1.03125] = Inr (m', res', out') \<and>
      fst ` set res' = {''Factor_1.0''} \<and>
      map_of res' ''Factor_1.0'' =
        Some [(''ATP_production'', 0), (''O2_consumption'', 0), (''NADH_turnover'', 0),
              (''growth_rate'', 1031.25)])"
proof -
  have a: "all_optimal echo_solver example_model [1, 2]" by (simp add: eval_simps)
  have d: "distinct (map label [1, 2])" by (simp add: label_1 label_2)
  have nn3: "list_all (\<lambda>f. 0 \<le> f) ([1, 2] :: real list)" by simp
  obtain m1 res1 out1 where
    r: "run_fba_with_enhancement echo_solver example_model [1, 2] = Inr (m1, res1, out1)"
    by (rule run_returns [OF safe_example nn3])
  from result_keys_are_labels [OF r a] d have k: "map fst res1 = [''Factor_1.0'', ''Factor_2.0'']"
    by (simp add: label_1 label_2)
  have a2: "all_optimal echo_solver example_model [1, 1.03125]" by (simp add: eval_simps)
  have nn4: "list_all (\<lambda>f. 0 \<le> f) ([1, 1.03125] :: real list)" by simp
  obtain m2 res2 out2 where
    r2: "run_fba_with_enhancement echo_solver example_model [1, 1.03125] = Inr (m2, res2, out2)"
    by (rule run_returns [OF safe_example nn4])
  note t = result_keys_are_labels [OF r2 a2]
  have "label ` set [1, 1.03125] = {''Factor_1.0''}" by (simp add: eval_simps)
  with t have k2: "fst ` set res2 = {''Factor_1.0''}" by (simp only:)
  have e: "rev (entries (solves echo_solver example_model [1, 1.03125])) =
      [(''Factor_1.0'', [(''ATP_production'', 0), (''O2_consumption'', 0), (''NADH_turnover'', 0),
                       (''growth_rate'', 1031.25)]),
       (''Factor_1.0'', [(''ATP_production'', 0), (''O2_consumption'', 0), (''NADH_turnover'', 0),
                       (''growth_rate'', 1000)])]"
    by (simp add: entries_def eval_simps)
  from t have "map_of res2 = map_of (rev (entries (solves echo_solver example_model [1, 1.03125])))"
    by blast
  then have v: "map_of res2 ''Factor_1.0'' =
        Some [(''ATP_production'', 0), (''O2_consumption'', 0), (''NADH_turnover'', 0),
              (''growth_rate'', 1031.25)]"
    unfolding e by simp
  show ?thesis by (intro exI conjI) (rule a d r k a2 r2 k2 v)+
qed

text \<open>
  Claim C6. For every entry \<open>(r, b)\<close> of the override table and every factor, the
  multiplier of \<open>r\<close> in the scaled table is \<open>min 4 (factor * b)\<close>. When the model has
  the reaction, line 39 assigns the upper bound times that multiplier: the setter
  refuses the product with \<open>ValueError\<close> when it is below the lower bound, and
  otherwise the reaction has the product as its upper bound and the change is printed;
  and whenever the whole scaled table is applied without a refusal, the reaction ends
  with that product. For \<open>CS\<close> the factor 2 gives 2 and the factor 5 is capped at 4.
\<close>

theorem effective_multiplier:
  assumes "(r, b) \<in> set base_constraints"
  shows "map_of (constraints factor) r = Some (min 4 (factor * b)) \<and>
         (\<forall>x. get_by_id (reactions m) r = Some x \<longrightarrow>
              apply_constraint (m, out) (r, min 4 (factor * b)) =
                (if upper_bound x * min 4 (factor * b) < lower_bound x
                 then Inl (ValueError (lower_bound x) (upper_bound x * min 4 (factor * b)))
                 else Inr (m\<lparr>reactions := scaled (reactions m) r (min 4 (factor * b))\<rparr>,
                           out @ [BoundChange r (upper_bound x)
                                    (upper_bound x * min 4 (factor * b))])) \<and>
              get_by_id (scaled (reactions m) r (min 4 (factor * b))) r =
                Some (x\<lparr>upper_bound := upper_bound x * min 4 (factor * b)\<rparr>)) \<and>
         (\<forall>x m' out'. get_by_id (reactions m) r = Some x \<and>
              apply_constraints (m, out) (constraints factor) = Inr (m', out') \<longrightarrow>
              get_by_id (reactions m') r =
                Some (x\<lparr>upper_bound := upper_bound x * min 4 (factor * b)\<rparr>)) \<and>
         map_of (constraints 2) ''CS'' = Some 2 \<and>
         map_of (constraints 5) ''CS'' = Some 4"
proof -
  have d: "distinct (map fst base_constraints)" by (simp add: base_constraints_def)
  from assms have b: "map_of base_constraints r = Some b"
    using d by simp
  let ?v = "min 4 (factor * b)"
  have 1: "map_of (constraints factor) r = Some ?v"
    by (simp add: map_of_constraints b)
  have 2: "apply_constraint (m, out) (r, ?v) =
                (if upper_bound x * ?v < lower_bound x
                 then Inl (ValueError (lower_bound x) (upper_bound x * ?v))
                 else Inr (m\<lparr>reactions := scaled (reactions m) r ?v\<rparr>,
                           out @ [BoundChange r (upper_bound x) (upper_bound x * ?v)])) \<and>
           get_by_id (scaled (reactions m) r ?v) r = Some (x\<lparr>upper_bound := upper_bound x * ?v\<rparr>)"
    if g: "get_by_id (reactions m) r = Some x" for x
  proof (cases "upper_bound x * ?v < lower_bound x")
    case True
    with apply_constraint_refuses [OF g True] show ?thesis
      by (simp add: get_by_id_scaled g)
  next
    case False
    then have "lower_bound x \<le> upper_bound x * ?v" by simp
    from apply_constraint_accepts [OF g this] False show ?thesis
      by (simp add: get_by_id_scaled g)
  qed
  have 3: "get_by_id (reactions m') r = Some (x\<lparr>upper_bound := upper_bound x * ?v\<rparr>)"
    if "get_by_id (reactions m) r = Some x \<and>
        apply_constraints (m, out) (constraints factor) = Inr (m', out')" for x m' out'
  proof -
    from that have g: "get_by_id (reactions m) r = Some x"
      and a: "apply_constraints (m, out) (constraints factor) = Inr (m', out')" by simp_all
    show ?thesis
      unfolding apply_constraints_model [OF a]
      by (simp add: get_by_id_scale_all [OF distinct_constraints] 1 g)
  qed
  have 4: "map_of (constraints 2) ''CS'' = Some 2" "map_of (constraints 5) ''CS'' = Some 4"
    by (simp_all add: map_of_constraints base_constraints_def)
  from 1 2 3 4 show ?thesis by blast
qed

theorem effective_multiplier_witness:
  "(''CS'', 1) \<in> set base_constraints \<and>
   map_of (constraints 5) ''CS'' = Some (min 4 (5 * 1)) \<and>
   get_by_id (reactions example_model) ''CS'' =
     Some \<lparr>rid = ''CS'', lower_bound = 0, upper_bound = 1000, original_upper_bound = None\<rparr> \<and>
   (\<exists>m' out'. apply_constraints (example_model, []) (constraints 5) = Inr (m', out') \<and>
      get_by_id (reactions m') ''CS'' =
        Some \<lparr>rid = ''CS'', lower_bound = 0, upper_bound = 4000, original_upper_bound = None\<rparr>) \<and>
   apply_constraint (example_model, []) (''CS'', min 4 (- 1 * 1)) = Inl (ValueError 0 (- 1000))"
proof -
  have a: "(''CS'', 1) \<in> set base_constraints" by (simp add: base_constraints_def)
  have g: "get_by_id (reactions example_model) ''CS'' =
     Some \<lparr>rid = ''CS'', lower_bound = 0, upper_bound = 1000, original_upper_bound = None\<rparr>"
    by (simp add: example_model_def)
  have s: "list_all safe_reaction (reactions example_model)"
    using safe_example by (simp add: safe_model_def)
  have c: "\<forall>(r, v)\<in>set (constraints 5). 0 \<le> v \<and> r \<in> set (map fst base_constraints)"
    by (simp add: constraints_eq base_constraints_def)
  from apply_constraints_safe [OF s c, of "[]"] obtain m' out' where
    r: "apply_constraints (example_model, []) (constraints 5) = Inr (m', out')" by blast
  note t = effective_multiplier [OF a, of 5 example_model "[]"]
  from t have 1: "map_of (constraints 5) ''CS'' = Some (min 4 (5 * 1))" by (rule conjunct1)
  from t g r have 2: "get_by_id (reactions m') ''CS'' =
        Some \<lparr>rid = ''CS'', lower_bound = 0, upper_bound = 4000, original_upper_bound = None\<rparr>"
    by simp
  from effective_multiplier [OF a, of "- 1" example_model "[]"] g
  have 3: "apply_constraint (example_model, []) (''CS'', min 4 (- 1 * 1)) = Inl (ValueError 0 (- 1000))"
    by simp
  show ?thesis by (intro exI conjI) (rule a 1 g r 2 3)+
qed

text \<open>
  Claim C7. For every factor \<open>f\<close> of the sweep whose solve is optimal, the mapping has
  the key \<open>Factor_\<close> followed by \<open>f\<close> in the format \<open>.1f\<close>, and every key of the
  mapping is such a label of an input factor. What the format writes is fixed by the
  number alone: a minus sign exactly for a negative number, then decimal digits without
  a leading zero (a single 0 apart), a point and one digit, such that the digits read
  as a whole number are ten times the absolute value rounded to the nearest integer, a
  tie going to the even one. For the factors the script sweeps the keys are
  \<open>Factor_1.0\<close> to \<open>Factor_4.0\<close>; 1.96 is written 2.0, and the ties 0.25, 0.75
  and 12.75 are written 0.2, 0.8 and 12.8.
\<close>

theorem result_key_format:
  assumes "run_fba_with_enhancement optimize m fs = Inr (m', res', out')"
    and "(f, sol) \<in> set (solves optimize m fs)" and "status sol = ''optimal''"
  shows "f \<in> set fs \<and> ''Factor_'' @ format_1f f \<in> fst ` set res' \<and>
         (\<exists>ip d. format_1f f = (if f < 0 then ''-'' else []) @ ip @ [CHR ''.'', d] \<and>
            set (ip @ [d]) \<subseteq> set ''0123456789'' \<and> (ip = ''0'' \<or> hd ip \<noteq> CHR ''0'') \<and> ip \<noteq> [] \<and>
            \<bar>\<bar>f\<bar> * 10 - real (decimal_value (ip @ [d]))\<bar> \<le> 1 / 2 \<and>
            (\<bar>\<bar>f\<bar> * 10 - real (decimal_value (ip @ [d]))\<bar> = 1 / 2 \<longrightarrow>
               even (decimal_value (ip @ [d])))) \<and>
         (\<forall>k\<in>fst ` set res'. \<exists>g\<in>set fs. k = ''Factor_'' @ format_1f g) \<and>
         map label factor_range = [''Factor_1.0'', ''Factor_2.0'', ''Factor_3.0'', ''Factor_4.0''] \<and>
         format_1f 1.96 = ''2.0'' \<and> format_1f 0.25 = ''0.2'' \<and> format_1f 0.75 = ''0.8'' \<and>
         format_1f 12.75 = ''12.8'' \<and> format_1f (- 0.5) = ''-0.5''"
proof -
  from assms(1) have s: "sweep optimize m [] [] fs = Inr (m', res', out')"
    by (simp add: run_fba_with_enhancement_def)
  have fs: "map fst (solves optimize m fs) = fs" by (rule length_solves [OF s])
  have k: "fst ` set res' = (\<lambda>(f, sol). label f) ` set (optimal_solves optimize m fs)"
    unfolding sweep_results [OF s] store_keys by simp
  from assms(2) have 1: "f \<in> set fs"
    using fs by (metis fst_conv image_eqI list.set_map)
  from assms(2,3) have "(f, sol) \<in> set (optimal_solves optimize m fs)"
    by (simp add: optimal_solves_def)
  then have 2: "''Factor_'' @ format_1f f \<in> fst ` set res'"
    unfolding k label_def [symmetric] by force
  have 3: "\<exists>g\<in>set fs. k' = ''Factor_'' @ format_1f g" if "k' \<in> fst ` set res'" for k'
  proof -
    from that obtain g sol' where m: "(g, sol') \<in> set (solves optimize m fs)" and e: "k' = label g"
      unfolding k optimal_solves_def by auto
    from m have "g \<in> set fs" using fs by (metis fst_conv image_eqI list.set_map)
    with e show ?thesis by (auto simp: label_def)
  qed
  have 4: "map label factor_range = [''Factor_1.0'', ''Factor_2.0'', ''Factor_3.0'', ''Factor_4.0'']"
    by (simp add: factor_range_def label_1 label_2 label_3 label_4)
  have 5: "format_1f 1.96 = ''2.0''" "format_1f 0.25 = ''0.2''" "format_1f 0.75 = ''0.8''"
    "format_1f 12.75 = ''12.8''" "format_1f (- 0.5) = ''-0.5''"
    by (simp_all add: format_1f_def round_half_even_def digit_char_def str_nat.simps)
  from 1 2 3 4 5 format_1f_value [of f] show ?thesis by blast
qed

theorem result_key_format_witness:
  "(2, always_optimal example_model) \<in> set (solves always_optimal example_model [2]) \<and>
   status (always_optimal example_model) = ''optimal'' \<and> format_1f 2 = ''2.0'' \<and>
   (\<exists>m' res' out'. run_fba_with_enhancement always_optimal example_model [2] = Inr (m', res', out') \<and>
      ''Factor_2.0'' \<in> fst ` set res')"
proof -
  have a: "(2, always_optimal example_model) \<in> set (solves always_optimal example_model [2])"
    by (simp add: eval_simps)
  have b: "status (always_optimal example_model) = ''optimal''" by (simp add: always_optimal_def)
  have c: "format_1f 2 = ''2.0''"
    by (simp add: format_1f_def round_half_even_def digit_char_def str_nat.simps)
  have nn5: "list_all (\<lambda>f. 0 \<le> f) ([2] :: real list)" by simp
  obtain m' res' out' where
    r: "run_fba_with_enhancement always_optimal example_model [2] = Inr (m', res', out')"
    by (rule run_returns [OF safe_example nn5])
  have "''Factor_'' @ format_1f 2 \<in> fst ` set res'"
    using result_key_format [OF r a b] by (rule conjunct1 [OF conjunct2])
  then have k: "''Factor_2.0'' \<in> fst ` set res'" by (simp add: c)
  show ?thesis by (intro exI conjI) (rule a b c r k)+
qed

text \<open>
  Claim C8. An iteration whose solve is optimal returns with the record of the solve
  stored under the label of the factor; the record has 0 in every field whose reaction
  is absent from the flux vector, and the iteration prints no warning.
\<close>

theorem missing_flux_defaults_to_zero:
  assumes "prepare m out f = Inr (m2, out1)" and "status (optimize m2) = ''optimal''"
  shows "\<exists>res' ev.
           sweep optimize m res out [f] = Inr (m2, res', out @ ev) \<and>
           map_of res' (label f) = Some (flux_record (optimize m2)) \<and>
           (\<forall>e\<in>set ev. \<not> is_warning e) \<and>
           (map_of (fluxes (optimize m2)) ''ATPM'' = None \<longrightarrow>
              map_of (flux_record (optimize m2)) ''ATP_production'' = Some 0) \<and>
           (map_of (fluxes (optimize m2)) ''EX_o2_e'' = None \<longrightarrow>
              map_of (flux_record (optimize m2)) ''O2_consumption'' = Some 0) \<and>
           (map_of (fluxes (optimize m2)) ''NADH16'' = None \<longrightarrow>
              map_of (flux_record (optimize m2)) ''NADH_turnover'' = Some 0) \<and>
           (map_of (fluxes (optimize m2)) ''BIOMASS_Ecoli_core_w_GAM'' = None \<longrightarrow>
              map_of (flux_record (optimize m2)) ''growth_rate'' = Some 0)"
proof -
  from prepare_events [OF assms(1)] obtain ev where
    ev: "out1 = out @ ev" "\<forall>e\<in>set ev. \<not> is_warning e" by blast
  let ?res = "AList.update (label f) (flux_record (optimize m2)) res"
  let ?ev = "ev @ [FluxSummary f (take 5 (fluxes (optimize m2)))]"
  have 1: "sweep optimize m res out [f] = Inr (m2, ?res, out @ ?ev)"
    unfolding sweep_single [OF assms(1)] using assms(2) by (simp add: ev(1))
  have 2: "map_of ?res (label f) = Some (flux_record (optimize m2))"
    by (simp add: AList.update_conv')
  have 3: "\<forall>e\<in>set ?ev. \<not> is_warning e" using ev(2) by simp
  have 4: "map_of (fluxes (optimize m2)) ''ATPM'' = None \<longrightarrow>
              map_of (flux_record (optimize m2)) ''ATP_production'' = Some 0"
    by (simp add: flux_record_eq get_default_def)
  have 5: "map_of (fluxes (optimize m2)) ''EX_o2_e'' = None \<longrightarrow>
              map_of (flux_record (optimize m2)) ''O2_consumption'' = Some 0"
    by (simp add: flux_record_eq get_default_def)
  have 6: "map_of (fluxes (optimize m2)) ''NADH16'' = None \<longrightarrow>
              map_of (flux_record (optimize m2)) ''NADH_turnover'' = Some 0"
    by (simp add: flux_record_eq get_default_def)
  have 7: "map_of (fluxes (optimize m2)) ''BIOMASS_Ecoli_core_w_GAM'' = None \<longrightarrow>
              map_of (flux_record (optimize m2)) ''growth_rate'' = Some 0"
    by (simp add: flux_record_eq get_default_def)
  show ?thesis
    by (intro exI conjI) (rule 1 2 3 4 5 6 7)+
qed

theorem missing_flux_defaults_to_zero_witness:
  "\<exists>m2 out1.
     prepare example_model [] 1 = Inr (m2, out1) \<and> status (partial_solver m2) = ''optimal'' \<and>
     map_of (fluxes (partial_solver m2)) ''BIOMASS_Ecoli_core_w_GAM'' = None \<and>
     (\<exists>res' ev. sweep partial_solver example_model [] [] [1] = Inr (m2, res', ev) \<and>
        map_of res' ''Factor_1.0'' = Some (flux_record (partial_solver m2)) \<and>
        filter is_warning ev = []) \<and>
     map_of (flux_record (partial_solver m2)) ''growth_rate'' = Some 0"
proof -
  have nn6: "(0::real) \<le> 1" by simp
  obtain m2 out1 where p: "prepare example_model [] 1 = Inr (m2, out1)"
    by (rule prepare_returns [OF safe_example nn6])
  have s: "status (partial_solver m2) = ''optimal''" by (simp add: partial_solver_def)
  have a: "map_of (fluxes (partial_solver m2)) ''BIOMASS_Ecoli_core_w_GAM'' = None"
    by (simp add: partial_solver_def)
  from missing_flux_defaults_to_zero [where optimize = partial_solver and res = "[]", OF p s]
  obtain res' ev where
    r: "sweep partial_solver example_model [] [] [1] = Inr (m2, res', [] @ ev)"
    and k: "map_of res' (label 1) = Some (flux_record (partial_solver m2))"
    and w: "\<forall>e\<in>set ev. \<not> is_warning e"
    and g: "map_of (fluxes (partial_solver m2)) ''BIOMASS_Ecoli_core_w_GAM'' = None \<longrightarrow>
              map_of (flux_record (partial_solver m2)) ''growth_rate'' = Some 0"
    by (elim exE conjE) (rule that)
  from r have r': "sweep partial_solver example_model [] [] [1] = Inr (m2, res', ev)" by simp
  from k have k': "map_of res' ''Factor_1.0'' = Some (flux_record (partial_solver m2))"
    by (simp add: label_1)
  from g a have g': "map_of (flux_record (partial_solver m2)) ''growth_rate'' = Some 0" by simp
  from w have w': "filter is_warning ev = []" by (simp add: filter_empty_conv)
  show ?thesis by (intro exI conjI) (rule p s a r' k' w' g')+
qed

text \<open>
  Claim C9. An iteration whose solve is optimal returns, and the stored field
  \<open>O2_consumption\<close> is the negation of the flux of \<open>EX_o2_e\<close> (0 when the flux
  vector has no such reaction), and the other three fields are the fluxes as reported.
\<close>

theorem o2_consumption_negated:
  assumes "prepare m out f = Inr (m2, out1)" and "status (optimize m2) = ''optimal''"
  shows "\<exists>res' out'.
           sweep optimize m res out [f] = Inr (m2, res', out') \<and>
           map_of res' (label f) = Some (flux_record (optimize m2)) \<and>
           map_of (flux_record (optimize m2)) ''O2_consumption'' =
             Some (- get_default (fluxes (optimize m2)) ''EX_o2_e'' 0) \<and>
           (\<forall>v. map_of (fluxes (optimize m2)) ''EX_o2_e'' = Some v \<longrightarrow>
                map_of (flux_record (optimize m2)) ''O2_consumption'' = Some (- v)) \<and>
           (map_of (fluxes (optimize m2)) ''EX_o2_e'' = None \<longrightarrow>
                map_of (flux_record (optimize m2)) ''O2_consumption'' = Some 0) \<and>
           (\<forall>v. map_of (fluxes (optimize m2)) ''ATPM'' = Some v \<longrightarrow>
                map_of (flux_record (optimize m2)) ''ATP_production'' = Some v) \<and>
           (\<forall>v. map_of (fluxes (optimize m2)) ''NADH16'' = Some v \<longrightarrow>
                map_of (flux_record (optimize m2)) ''NADH_turnover'' = Some v) \<and>
           (\<forall>v. map_of (fluxes (optimize m2)) ''BIOMASS_Ecoli_core_w_GAM'' = Some v \<longrightarrow>
                map_of (flux_record (optimize m2)) ''growth_rate'' = Some v)"
proof -
  let ?res = "AList.update (label f) (flux_record (optimize m2)) res"
  let ?out = "out1 @ [FluxSummary f (take 5 (fluxes (optimize m2)))]"
  have 1: "sweep optimize m res out [f] = Inr (m2, ?res, ?out)"
    unfolding sweep_single [OF assms(1)] using assms(2) by simp
  have 2: "map_of ?res (label f) = Some (flux_record (optimize m2))"
    by (simp add: AList.update_conv')
  have 3: "map_of (flux_record (optimize m2)) ''O2_consumption'' =
             Some (- get_default (fluxes (optimize m2)) ''EX_o2_e'' 0)"
    by (simp add: flux_record_eq)
  have 4: "\<forall>v. map_of (fluxes (optimize m2)) ''EX_o2_e'' = Some v \<longrightarrow>
                map_of (flux_record (optimize m2)) ''O2_consumption'' = Some (- v)"
    by (simp add: flux_record_eq get_default_def)
  have 5: "map_of (fluxes (optimize m2)) ''EX_o2_e'' = None \<longrightarrow>
                map_of (flux_record (optimize m2)) ''O2_consumption'' = Some 0"
    by (simp add: flux_record_eq get_default_def)
  have 6: "\<forall>v. map_of (fluxes (optimize m2)) ''ATPM'' = Some v \<longrightarrow>
                map_of (flux_record (optimize m2)) ''ATP_production'' = Some v"
    by (simp add: flux_record_eq get_default_def)
  have 7: "\<forall>v. map_of (fluxes (optimize m2)) ''NADH16'' = Some v \<longrightarrow>
                map_of (flux_record (optimize m2)) ''NADH_turnover'' = Some v"
    by (simp add: flux_record_eq get_default_def)
  have 8: "\<forall>v. map_of (fluxes (optimize m2)) ''BIOMASS_Ecoli_core_w_GAM'' = Some v \<longrightarrow>
                map_of (flux_record (optimize m2)) ''growth_rate'' = Some v"
    by (simp add: flux_record_eq get_default_def)
  show ?thesis
    by (intro exI conjI) (rule 1 2 3 4 5 6 7 8)+
qed

theorem o2_consumption_negated_witness:
  "\<exists>m2 out1.
     prepare example_model [] 1 = Inr (m2, out1) \<and> status (always_optimal m2) = ''optimal'' \<and>
     map_of (fluxes (always_optimal m2)) ''EX_o2_e'' = Some (-5) \<and>
     map_of (fluxes (always_optimal m2)) ''ATPM'' = Some 8.39 \<and>
     (\<exists>res' out'. sweep always_optimal example_model [] [] [1] = Inr (m2, res', out') \<and>
        map_of res' ''Factor_1.0'' = Some (flux_record (always_optimal m2))) \<and>
     map_of (flux_record (always_optimal m2)) ''O2_consumption'' = Some 5 \<and>
     map_of (flux_record (always_optimal m2)) ''ATP_production'' = Some 8.39"
proof -
  have nn7: "(0::real) \<le> 1" by simp
  obtain m2 out1 where p: "prepare example_model [] 1 = Inr (m2, out1)"
    by (rule prepare_returns [OF safe_example nn7])
  have s: "status (always_optimal m2) = ''optimal''" by (simp add: always_optimal_def)
  have a: "map_of (fluxes (always_optimal m2)) ''EX_o2_e'' = Some (-5)"
    by (simp add: always_optimal_def example_fluxes_def)
  have b: "map_of (fluxes (always_optimal m2)) ''ATPM'' = Some 8.39"
    by (simp add: always_optimal_def example_fluxes_def)
  from o2_consumption_negated [where optimize = always_optimal and res = "[]", OF p s]
  obtain res' out' where
    r: "sweep always_optimal example_model [] [] [1] = Inr (m2, res', out')"
    and k: "map_of res' (label 1) = Some (flux_record (always_optimal m2))"
    and o: "\<forall>v. map_of (fluxes (always_optimal m2)) ''EX_o2_e'' = Some v \<longrightarrow>
                map_of (flux_record (always_optimal m2)) ''O2_consumption'' = Some (- v)"
    and t: "\<forall>v. map_of (fluxes (always_optimal m2)) ''ATPM'' = Some v \<longrightarrow>
                map_of (flux_record (always_optimal m2)) ''ATP_production'' = Some v"
    by (elim exE conjE) (rule that)
  from k have k': "map_of res' ''Factor_1.0'' = Some (flux_record (always_optimal m2))"
    by (simp add: label_1)
  from o a have g: "map_of (flux_record (always_optimal m2)) ''O2_consumption'' = Some 5"
    by fastforce
  from t b have h: "map_of (flux_record (always_optimal m2)) ''ATP_production'' = Some 8.39"
    by blast
  show ?thesis by (intro exI conjI) (rule p s a b r k' g h)+
qed

text \<open>
  Claim C10. When no reaction has the original-value marker, an iteration keeps the
  number, the order and the identifiers of the reactions, every lower bound and every
  marker, and it keeps every reaction that the override table does not name as it was;
  the objective becomes the equal-weighted pair of the biomass and the maintenance
  reaction. The model has no other state than its reactions and its objective.
\<close>

theorem iteration_frame:
  assumes "no_markers m" and "sweep optimize m res out [f] = Inr (m', res', out')"
  shows "length (reactions m') = length (reactions m) \<and>
         (\<forall>i<length (reactions m).
            rid (reactions m' ! i) = rid (reactions m ! i) \<and>
            lower_bound (reactions m' ! i) = lower_bound (reactions m ! i) \<and>
            original_upper_bound (reactions m' ! i) = original_upper_bound (reactions m ! i) \<and>
            (rid (reactions m ! i) \<notin> fst ` set base_constraints \<longrightarrow>
               reactions m' ! i = reactions m ! i)) \<and>
         objective m' = [(''BIOMASS_Ecoli_core_w_GAM'', 1 / 2), (''ATPM'', 1 / 2)]"
proof -
  from assms(2) obtain m2 out1 where p: "prepare m out f = Inr (m2, out1)"
    by (rule sweep_Inr_prepare)
  from assms(2) have m': "m' = m2"
    unfolding sweep_single [OF p] by (simp split: if_splits)
  have r: "reactions m' = scale_all (reactions m) (constraints f)"
    unfolding m' by (rule prepare_reactions [OF p assms(1)])
  have o: "objective m' = [(''BIOMASS_Ecoli_core_w_GAM'', 1 / 2), (''ATPM'', 1 / 2)]"
    unfolding m' by (rule prepare_objective [OF p])
  show ?thesis
    unfolding r o using scale_all_nth [of _ "reactions m" "constraints f"]
    by (simp add: keys_constraints)
qed

theorem iteration_frame_witness:
  "no_markers example_model \<and>
   (\<exists>m' res' out'. sweep always_optimal example_model [] [] [2] = Inr (m', res', out') \<and>
      lower_bound (reactions m' ! 1) = 8.39 \<and>
      reactions m' ! 3 =
        \<lparr>rid = ''EX_o2_e'', lower_bound = -25, upper_bound = -5, original_upper_bound = None\<rparr>)"
proof -
  have nn8: "list_all (\<lambda>f. 0 \<le> f) ([2] :: real list)" by simp
  obtain m' res' out' where r: "sweep always_optimal example_model [] [] [2] = Inr (m', res', out')"
    by (rule sweep_returns [OF safe_example nn8])
  note t = iteration_frame [OF no_markers_example r]
  have l: "length (reactions example_model) = 4" by (simp add: example_model_def)
  from t l have a: "lower_bound (reactions m' ! 1) = 8.39"
    by (simp add: example_model_def)
  have "rid (reactions example_model ! 3) \<notin> fst ` set base_constraints"
    by (simp add: example_model_def base_constraints_def)
  with t l have "reactions m' ! 3 = reactions example_model ! 3" by simp
  then have b: "reactions m' ! 3 =
        \<lparr>rid = ''EX_o2_e'', lower_bound = -25, upper_bound = -5, original_upper_bound = None\<rparr>"
    by (simp add: example_model_def)
  show ?thesis by (intro exI conjI) (rule no_markers_example r a b)+
qed

end
